theory Spec2Isabelle
  imports Main "HOL-Library.Char_ord"
begin

section \<open>Go strings: bytes and runes\<close>

text \<open>
  A Go string is a sequence of bytes: \<open>len(s)\<close> counts bytes and \<open>s[i:]\<close> slices at
  byte offsets. It is modelled by \<open>string\<close> (a list of 8-bit characters). The package
  \<open>fmt\<close> measures width and precision in runes, so the UTF-8 decoding of
  \<open>unicode/utf8\<close> is modelled as well: \<open>rune_size\<close> is the number of bytes
  \<open>utf8.DecodeRuneInString\<close> consumes at the head of a string (an invalid or
  truncated encoding is one rune of one byte).
\<close>

definition byte_in :: "nat \<Rightarrow> nat \<Rightarrow> char \<Rightarrow> bool" where
  "byte_in lo hi c = (lo \<le> of_char c \<and> of_char c \<le> hi)"

definition rune_need :: "char \<Rightarrow> nat" where
  "rune_need b =
     (if byte_in 0xC2 0xDF b then 1
      else if byte_in 0xE0 0xEF b then 2
      else if byte_in 0xF0 0xF4 b then 3
      else 0)"

definition accept_lo :: "char \<Rightarrow> nat" where
  "accept_lo b = (if of_char b = (0xE0::nat) then 0xA0 else if of_char b = (0xF0::nat) then 0x90 else 0x80)"

definition accept_hi :: "char \<Rightarrow> nat" where
  "accept_hi b = (if of_char b = (0xED::nat) then 0x9F else if of_char b = (0xF4::nat) then 0x8F else 0xBF)"

definition rune_size :: "char \<Rightarrow> string \<Rightarrow> nat" where
  "rune_size b rest =
     (let n = rune_need b; cs = take n rest
      in if n = 0 then 1
         else if length cs = n \<and> byte_in (accept_lo b) (accept_hi b) (hd cs)
                 \<and> list_all (byte_in 0x80 0xBF) (tl cs)
         then Suc n else 1)"

text \<open>
  \<open>rune_count_from k s\<close> counts the runes of \<open>s\<close> after skipping the \<open>k\<close> bytes that
  still belong to the rune before it; \<open>RuneCountInString s\<close> is
  \<open>utf8.RuneCountInString\<close>.
\<close>

fun rune_count_from :: "nat \<Rightarrow> string \<Rightarrow> nat" where
  "rune_count_from k [] = 0"
| "rune_count_from (Suc k) (b # bs) = rune_count_from k bs"
| "rune_count_from 0 (b # bs) = Suc (rune_count_from (rune_size b bs - 1) bs)"

definition RuneCountInString :: "string \<Rightarrow> nat" where
  "RuneCountInString s = rune_count_from 0 s"

text \<open>
  \<open>fmt\<close>'s \<open>truncateString\<close>: with precision \<open>n\<close>, the string is cut at the byte
  offset where its rune number \<open>n\<close> (counted from 0) starts.
  \<^verbatim>\<open>
  for i := range s { n--; if n < 0 { return s[:i] } }
  return s
  \<close>
\<close>

fun truncate_from :: "nat \<Rightarrow> nat \<Rightarrow> string \<Rightarrow> string" where
  "truncate_from k n [] = []"
| "truncate_from (Suc k) n (b # bs) = b # truncate_from k n bs"
| "truncate_from 0 0 (b # bs) = []"
| "truncate_from 0 (Suc n) (b # bs) = b # truncate_from (rune_size b bs - 1) n bs"

definition truncateString :: "nat \<Rightarrow> string \<Rightarrow> string" where
  "truncateString n s = truncate_from 0 n s"

text \<open>
  \<open>fmt\<close>'s \<open>padString\<close> with the minus flag: the string, then spaces up to the width,
  which is counted in runes.
\<close>

definition padString_minus :: "nat \<Rightarrow> string \<Rightarrow> string" where
  "padString_minus wid s = s @ replicate (wid - RuneCountInString s) (CHR '' '')"

text \<open>
  \<open>fmt.Sprintf("%-*.*s", w, w, s)\<close>. A width or precision argument beyond
  \<open>\<plusminus>1000000\<close> is refused by \<open>fmt\<close> (\<open>tooLarge\<close>): the marker
  \<open>%!(BADWIDTH)\<close> or \<open>%!(BADPREC)\<close> is written and the string is formatted without
  that width or precision. A negative width is its absolute value with the minus
  flag, a negative precision is no precision and is marked.
\<close>

definition tooLarge :: "int \<Rightarrow> bool" where
  "tooLarge x = (x > 1000000 \<or> x < - 1000000)"

definition Sprintf_pad :: "int \<Rightarrow> string \<Rightarrow> string" where
  "Sprintf_pad w s =
     (if tooLarge w then ''%!(BADWIDTH)'' @ ''%!(BADPREC)'' @ s
      else if w < 0 then ''%!(BADPREC)'' @ padString_minus (nat (- w)) s
      else padString_minus (nat w) (truncateString (nat w) s))"

text \<open>
  \<^verbatim>\<open>
  func textField(w int, s string) string {
      if w <= 0 { return s }
      l := len(s)
      if l > w { s = s[l-w:] }
      return fmt.Sprintf("%-*.*s", w, w, s)
  }
  \<close>
\<close>

definition textField :: "int \<Rightarrow> string \<Rightarrow> string" where
  "textField w s =
     (if w \<le> 0 then s
      else let l = int (length s);
               s' = (if l > w then drop (nat (l - w)) s else s)
           in Sprintf_pad w s')"



section \<open>Names\<close>

text \<open>
  \<^verbatim>\<open>
  const namePattern = `[a-z]([a-zA-Z0-9\._-]*[a-zA-Z0-9])?`
  var nameRegex = regexp.MustCompile(`^` + namePattern + `$`)
  func ValidName(n string) bool { return nameRegex.MatchString(n) }
  \<close>
  The classes are ASCII, so a byte from \<open>0x80\<close> on matches none of them; \<open>$\<close> is
  the end of the text.
\<close>

definition lower :: "char \<Rightarrow> bool" where
  "lower c = (CHR ''a'' \<le> c \<and> c \<le> CHR ''z'')"

definition alnum :: "char \<Rightarrow> bool" where
  "alnum c = (lower c \<or> (CHR ''A'' \<le> c \<and> c \<le> CHR ''Z'') \<or> (CHR ''0'' \<le> c \<and> c \<le> CHR ''9''))"

definition name_body :: "char \<Rightarrow> bool" where
  "name_body c = (alnum c \<or> c = CHR ''.'' \<or> c = CHR ''_'' \<or> c = CHR ''-'')"

definition ValidName :: "string \<Rightarrow> bool" where
  "ValidName n =
     (case n of
        [] \<Rightarrow> False
      | c # cs \<Rightarrow> lower c \<and> (cs = [] \<or> (list_all name_body (butlast cs) \<and> alnum (last cs))))"

section \<open>The data model\<close>

text \<open>
  \<open>logger.go\<close> holds two versions of the logger; the first one (with \<open>Logger\<close>,
  \<open>Set\<close>, \<open>SetLevel\<close> and \<open>With\<close>) is modelled, with the encoder at the end of that
  file and \<open>GetCaller\<close> of \<open>record.go\<close>. Calls run one after the other: the mutex of
  a node is not modelled.

  The loggers live in a store: a list of nodes, a pointer \<open>*logger\<close> is an index
  into it, and a new node is appended. A value of type \<open>interface{}\<close> is \<open>nil\<close> or
  a value; the type \<open>Level\<close> is an integer. The \<open>data\<close> map is only read, written
  and deleted by key, so it is a partial function; the \<open>subs\<close> map is also ranged
  over, so it is an association list with the children in the order of their
  creation (Go leaves the order of a range over a map open).
  The only implementation of \<open>IEncoder\<close> is \<open>columnEncoder\<close>, the only one of
  \<open>IColumn\<close> is \<open>column\<close>, and \<open>ITextValue\<close> has the seven implementations below.
  An \<open>io.Writer\<close> is known by a number, and what was written is kept as the list of
  the \<open>Write\<close> calls made so far.
\<close>

datatype 'v iface = nil | Val 'v

type_synonym addr = nat

type_synonym writer = nat

datatype textValue =
    timeText string
  | levelText int
  | nameText int
  | moduleText int
  | codeText int
  | messageText int
  | dataText string string int

record column =
  col_name :: string
  col_text :: textValue

record columnEncoder =
  columns :: "column list"

record 'v logger =
  parent :: "addr option"
  name :: string
  level :: int
  data :: "string \<rightharpoonup> 'v iface"
  subs :: "(string \<times> addr) list"
  writer :: "writer option"
  encoder :: "columnEncoder option"

type_synonym 'v heap = "'v logger list"

record Caller =
  Package :: string
  Function :: string
  File :: string
  Line :: int

record Record =
  Time :: int
  Caller :: Caller
  Level :: int
  Message :: string

record Frame =
  frame_Function :: string
  frame_File :: string
  frame_Line :: int

datatype error =
    InvalidLoggerName string
  | InvalidSetName string
  | MissingLoggerName
  | SliceBoundsOutOfRange

text \<open>
  What the code takes from outside this repository, as parameters: the formatting of a
  time (an instant is an integer here), the name of a level (\<open>Level.String\<close> is not in
  the source files), \<open>fmt.Sprintf\<close> of a data value, \<open>strings.Map\<close> keeping the runes
  that \<open>unicode.IsGraphic\<close> accepts, and \<open>path.Dir\<close> and \<open>path.Base\<close>.
\<close>

record 'v golib =
  time_Format :: "int \<Rightarrow> string \<Rightarrow> string"
  Level_String :: "int \<Rightarrow> string"
  Sprintf_value :: "string \<Rightarrow> 'v iface \<Rightarrow> string"
  keep_graphic :: "string \<Rightarrow> string"
  path_Dir :: "string \<Rightarrow> string"
  path_Base :: "string \<Rightarrow> string"

section \<open>The caller of a log call\<close>

text \<open>\<open>strings.SplitN(s, sep, 2)\<close> for a separator of one byte.\<close>

definition SplitN2 :: "char \<Rightarrow> string \<Rightarrow> string list" where
  "SplitN2 sep s =
     (if sep \<in> set s then [takeWhile (\<lambda>c. c \<noteq> sep) s, tl (dropWhile (\<lambda>c. c \<noteq> sep) s)]
      else [s])"

definition zeroFrame :: Frame where
  "zeroFrame = \<lparr>frame_Function = [], frame_File = [], frame_Line = 0\<rparr>"

text \<open>
  \<open>stack\<close> is what \<open>runtime.Callers(0, pc)\<close> sees, frame 0 first; \<open>pc\<close> has room
  for 10 frames, so \<open>n\<close> is at most 10 and the entries of \<open>pc\<close> from \<open>n\<close> on are
  zero (\<open>CallersFrames\<close> gives the zero frame for them). The slice expression
  \<open>pc[skip : skip+1]\<close> panics unless \<open>0 \<le> skip\<close> and \<open>skip + 1 \<le> 10\<close>.
\<close>

definition GetCaller :: "'v golib \<Rightarrow> Frame list \<Rightarrow> int \<Rightarrow> error + Caller" where
  "GetCaller lib stack skip =
     (let n = min (int (length stack)) 10
      in if n \<ge> skip then
           if skip < 0 \<or> skip + 1 > 10 then Inl SliceBoundsOutOfRange
           else
             let frame = (if skip < n then stack ! nat skip else zeroFrame);
                 d0 = path_Dir lib (frame_Function frame);
                 d = (if d0 = ''.'' then [] else d0);
                 b = path_Base lib (frame_Function frame);
                 p = SplitN2 (CHR ''.'') b
             in if length p = 2
                then Inr \<lparr>Package = d @ ''/'' @ p ! 0, Function = p ! 1,
                          File = frame_File frame, Line = frame_Line frame\<rparr>
                else Inr \<lparr>Package = ''?'', Function = frame_Function frame,
                          File = frame_File frame, Line = frame_Line frame\<rparr>
         else Inr \<lparr>Package = ''N/A'', Function = ''N/A'', File = ''N/A'', Line = - 1\<rparr>)"

section \<open>Loggers\<close>

text \<open>
  \<open>logger.Logger\<close>: the child of that name, created when there is none. The lines
  written to \<open>os.Stderr\<close> by \<open>fmt.Fprintf\<close> for tracing are left out, here and in
  \<open>Logger\<close> below. A panic is the left summand; the store comes back with it.
\<close>

definition logger_Logger :: "addr \<Rightarrow> string \<Rightarrow> 'v heap \<Rightarrow> (error + addr) \<times> 'v heap" where
  "logger_Logger l n h =
     (if \<not> ValidName n then (Inl (InvalidLoggerName n), h)
      else case map_of (subs (h ! l)) n of
             Some exists \<Rightarrow> (Inr exists, h)
           | None \<Rightarrow>
               (let sub = \<lparr>parent = Some l, name = n, level = level (h ! l),
                           data = Map.empty, subs = [],
                           writer = writer (h ! l), encoder = encoder (h ! l)\<rparr>;
                    a = length h
                in (Inr a, h[l := (h ! l)\<lparr>subs := subs (h ! l) @ [(n, a)]\<rparr>] @ [sub])))"

text \<open>
  \<open>Name\<close> and \<open>Get\<close> follow the parent pointers; the first argument bounds the number
  of nodes visited, and \<open>None\<close> is a walk that has not ended within the bound.
\<close>

fun Name :: "nat \<Rightarrow> 'v heap \<Rightarrow> addr \<Rightarrow> string option" where
  "Name 0 h l = None"
| "Name (Suc k) h l =
     (case parent (h ! l) of
        None \<Rightarrow> Some (name (h ! l))
      | Some p \<Rightarrow> (case Name k h p of None \<Rightarrow> None | Some pn \<Rightarrow> Some (pn @ ''/'' @ name (h ! l))))"

definition Set :: "addr \<Rightarrow> string \<Rightarrow> 'v iface \<Rightarrow> 'v heap \<Rightarrow> error + 'v heap" where
  "Set l n v h =
     (if \<not> ValidName n then Inl (InvalidSetName n)
      else Inr (h[l := (h ! l)\<lparr>data := (data (h ! l))(n \<mapsto> v)\<rparr>]))"

fun Get :: "nat \<Rightarrow> 'v heap \<Rightarrow> addr \<Rightarrow> string \<Rightarrow> ('v iface \<times> bool) option" where
  "Get 0 h l n = None"
| "Get (Suc k) h l n =
     (case data (h ! l) n of
        Some v \<Rightarrow> Some (v, True)
      | None \<Rightarrow> (case parent (h ! l) of Some p \<Rightarrow> Get k h p n | None \<Rightarrow> Some (nil, False)))"

text \<open>
  \<open>for _, ll := range l.subs { ... }\<close> where the body is a call on the child \<open>ll\<close>
  that changes the store.
\<close>

fun range_subs :: "(addr \<Rightarrow> 'v heap \<Rightarrow> 'v heap option) \<Rightarrow> (string \<times> addr) list \<Rightarrow> 'v heap \<Rightarrow> 'v heap option" where
  "range_subs f [] h = Some h"
| "range_subs f ((n, ll) # rest) h = (case f ll h of None \<Rightarrow> None | Some h' \<Rightarrow> range_subs f rest h')"

text \<open>
  \<open>SetLevel\<close> calls \<open>WithLevel\<close> on each child, which is \<open>SetLevel\<close> on the child and
  returns the child; the loop drops what is returned. The first argument bounds the
  depth of the calls; \<open>minLevel\<close> and \<open>maxLevel\<close> are the constants \<open>_minLevel\<close> and
  \<open>_maxLevel\<close>, which the source files do not hold.
\<close>

fun SetLevel :: "nat \<Rightarrow> int \<Rightarrow> int \<Rightarrow> addr \<Rightarrow> int \<Rightarrow> 'v heap \<Rightarrow> 'v heap option" where
  "SetLevel 0 minLevel maxLevel l lv h = None"
| "SetLevel (Suc k) minLevel maxLevel l lv h =
     (if lv \<ge> minLevel \<and> lv \<le> maxLevel
      then range_subs (\<lambda>ll. SetLevel k minLevel maxLevel ll lv) (subs (h ! l))
             (h[l := (h ! l)\<lparr>level := lv\<rparr>])
      else Some h)"

definition WithLevel :: "nat \<Rightarrow> int \<Rightarrow> int \<Rightarrow> addr \<Rightarrow> int \<Rightarrow> 'v heap \<Rightarrow> (addr \<times> 'v heap) option" where
  "WithLevel k minLevel maxLevel l lv h = map_option (Pair l) (SetLevel k minLevel maxLevel l lv h)"

fun With :: "nat \<Rightarrow> addr \<Rightarrow> string \<Rightarrow> 'v iface \<Rightarrow> 'v heap \<Rightarrow> (addr \<times> 'v heap) option" where
  "With 0 l n v h = None"
| "With (Suc k) l n v h =
     (if ValidName n
      then map_option (Pair l)
             (range_subs (\<lambda>ll h'. map_option snd (With k ll n nil h')) (subs (h ! l))
                (h[l := (h ! l)\<lparr>data := (if v = nil then (data (h ! l))(n := None)
                                           else (data (h ! l))(n \<mapsto> v))\<rparr>]))
      else Some (l, h))"

section \<open>The registry\<close>

text \<open>
  \<open>top\<close> is the first node of the store. \<open>init\<close> builds it with \<open>parent: top\<close>, which
  is still the nil interface then. \<open>strings.SplitN(name, "/", -1)\<close> is \<open>Split\<close>.
\<close>

definition top :: addr where
  "top = 0"

definition os_Stderr :: writer where
  "os_Stderr = 2"

fun split_from :: "char \<Rightarrow> string \<Rightarrow> string \<Rightarrow> string list" where
  "split_from sep cur [] = [cur]"
| "split_from sep cur (c # cs) =
     (if c = sep then cur # split_from sep [] cs else split_from sep (cur @ [c]) cs)"

definition Split :: "char \<Rightarrow> string \<Rightarrow> string list" where
  "Split sep s = split_from sep [] s"

fun Logger_loop :: "string list \<Rightarrow> addr \<Rightarrow> 'v heap \<Rightarrow> (error + addr) \<times> 'v heap" where
  "Logger_loop [] log h = (Inr log, h)"
| "Logger_loop (n0 # names) log h =
     (if length n0 > 0
      then (case logger_Logger log n0 h of
              (Inl e, h') \<Rightarrow> (Inl e, h')
            | (Inr log', h') \<Rightarrow> Logger_loop names log' h')
      else Logger_loop names log h)"

definition Logger :: "string \<Rightarrow> 'v heap \<Rightarrow> (error + addr) \<times> 'v heap" where
  "Logger nm h =
     (case Logger_loop (Split (CHR ''/'') nm) top h of
        (Inl e, h') \<Rightarrow> (Inl e, h')
      | (Inr log, h') \<Rightarrow> if log = top then (Inl MissingLoggerName, h') else (Inr log, h'))"


section \<open>The column encoder\<close>

text \<open>\<open>fmt.Sprintf("%5d", i)\<close>: the decimal digits, with the sign, after spaces up to width 5.\<close>

fun digits :: "nat \<Rightarrow> string" where
  "digits n = (if n < 10 then [char_of (48 + n)] else digits (n div 10) @ [char_of (48 + n mod 10)])"

definition Sprintf_5d :: "int \<Rightarrow> string" where
  "Sprintf_5d i =
     (let s = (if i < 0 then CHR ''-'' # digits (nat (- i)) else digits (nat i))
      in replicate (5 - length s) (CHR '' '') @ s)"

text \<open>
  The method \<open>Text\<close> of the seven text values. \<open>nameText\<close> and \<open>dataText\<close> call
  \<open>l.Name()\<close> and \<open>l.Get(name)\<close>, which walk up the tree within the bound \<open>k\<close>.
\<close>

fun Text :: "'v golib \<Rightarrow> nat \<Rightarrow> 'v heap \<Rightarrow> textValue \<Rightarrow> addr \<Rightarrow> Record \<Rightarrow> string option" where
  "Text lib k h (timeText f) l r =
     Some (if f = [] then time_Format lib (Time r) ''2006-01-02 15:04:05.000''
           else time_Format lib (Time r) f)"
| "Text lib k h (levelText w) l r = Some (textField w (Level_String lib (Level r)))"
| "Text lib k h (nameText w) l r = map_option (textField w) (Name k h l)"
| "Text lib k h (moduleText w) l r =
     Some (textField w (Package (Caller r) @ ''.'' @ Function (Caller r) @ ''()''))"
| "Text lib k h (codeText w) l r =
     Some (textField w (File (Caller r) @ ''('' @ Sprintf_5d (Line (Caller r)) @ '')''))"
| "Text lib k h (messageText w) l r = Some (textField w (Message r))"
| "Text lib k h (dataText f nm w) l r =
     (case Get k h l nm of
        None \<Rightarrow> None
      | Some (v, ok) \<Rightarrow> Some (textField w (if ok then Sprintf_value lib f v else [])))"

definition DataText :: "string \<Rightarrow> string \<Rightarrow> int \<Rightarrow> textValue" where
  "DataText f nm width = dataText (if f = [] then ''%v'' else f) nm width"

definition Column :: "string \<Rightarrow> textValue \<Rightarrow> column" where
  "Column nm txt = \<lparr>col_name = nm, col_text = txt\<rparr>"

definition NewColumnEncoder :: columnEncoder where
  "NewColumnEncoder = \<lparr>columns = []\<rparr>"

definition columnEncoder_With :: "columnEncoder \<Rightarrow> column list \<Rightarrow> columnEncoder" where
  "columnEncoder_With ce cols = ce\<lparr>columns := columns ce @ cols\<rparr>"

definition DefaultEncoder :: columnEncoder where
  "DefaultEncoder =
     columnEncoder_With (columnEncoder_With (columnEncoder_With (columnEncoder_With
       (columnEncoder_With (columnEncoder_With NewColumnEncoder
          [Column ''time'' (timeText ''2006-01-02 15:04:05.000'')])
          [Column ''level'' (levelText 5)])
          [Column ''logger'' (nameText 10)])
          [Column ''module'' (moduleText 15)])
          [Column ''code'' (codeText 30)])
          [Column ''message'' (messageText 0)]"

text \<open>
  \<^verbatim>\<open>
  func (ce columnEncoder) Encode(l ILogger, r Record) []byte {
      text := ""
      for _, col := range ce.columns { text += "|" + col.Text(l, r) }
      text += "\n"
      return []byte(text[1:])
  }
  \<close>
\<close>

fun encode_columns :: "'v golib \<Rightarrow> nat \<Rightarrow> 'v heap \<Rightarrow> addr \<Rightarrow> Record \<Rightarrow> column list \<Rightarrow> string \<Rightarrow> string option" where
  "encode_columns lib k h l r [] text = Some text"
| "encode_columns lib k h l r (col # cols) text =
     (case Text lib k h (col_text col) l r of
        None \<Rightarrow> None
      | Some t \<Rightarrow> encode_columns lib k h l r cols (text @ ''|'' @ t))"

definition Encode :: "'v golib \<Rightarrow> nat \<Rightarrow> 'v heap \<Rightarrow> columnEncoder \<Rightarrow> addr \<Rightarrow> Record \<Rightarrow> string option" where
  "Encode lib k h ce l r =
     (case encode_columns lib k h l r (columns ce) [] of
        None \<Rightarrow> None
      | Some text \<Rightarrow> Some (drop 1 (text @ [CHR 0x0A])))"

section \<open>Writing a record\<close>

text \<open>
  \<open>logger.log\<close>: \<open>now\<close> is \<open>time.Now()\<close>, \<open>stack\<close> the call stack that \<open>GetCaller\<close>
  sees, \<open>out\<close> the \<open>Write\<close> calls made so far. What \<open>Write\<close> returns is dropped by
  the code. The result is \<open>None\<close> when a walk up the tree does not end within \<open>k\<close>.
\<close>

definition log :: "'v golib \<Rightarrow> int \<Rightarrow> Frame list \<Rightarrow> nat \<Rightarrow> addr \<Rightarrow> int \<Rightarrow> int \<Rightarrow> string \<Rightarrow> 'v heap
    \<Rightarrow> (writer \<times> string) list \<Rightarrow> (error + (writer \<times> string) list) option" where
  "log lib now stack k l skip lv msg h out =
     (case (encoder (h ! l), writer (h ! l)) of
        (Some e, Some w) \<Rightarrow>
          if lv \<ge> level (h ! l) then
            (let cleanMessage = keep_graphic lib msg
             in case GetCaller lib stack (skip + 4) of
                  Inl err \<Rightarrow> Some (Inl err)
                | Inr c \<Rightarrow>
                    (case Encode lib k h e l \<lparr>Time = now, Caller = c, Level = lv, Message = cleanMessage\<rparr> of
                       None \<Rightarrow> None
                     | Some encodedRecord \<Rightarrow> Some (Inr (out @ [(w, encodedRecord)]))))
          else Some (Inr out)
      | _ \<Rightarrow> Some (Inr out))"


section \<open>The shape of the store\<close>

text \<open>
  Nodes are only ever appended, and a child is made after its parent: in a store built
  by the code every child has a larger address than its parent, and every address in
  it is below the length of the store.
\<close>

definition wf_heap :: "'v heap \<Rightarrow> bool" where
  "wf_heap h =
     (h \<noteq> [] \<and>
      (\<forall>a < length h.
         (\<forall>(n, c) \<in> set (subs (h ! a)). a < c \<and> c < length h) \<and>
         (case parent (h ! a) of None \<Rightarrow> True | Some p \<Rightarrow> p < a)))"

text \<open>The descendants of a node: its children, and their descendants.\<close>

inductive descendant :: "'v heap \<Rightarrow> addr \<Rightarrow> addr \<Rightarrow> bool" for h :: "'v heap" and a :: addr where
  child: "a < length h \<Longrightarrow> (n, c) \<in> set (subs (h ! a)) \<Longrightarrow> descendant h a c"
| below: "descendant h a b \<Longrightarrow> b < length h \<Longrightarrow> (n, c) \<in> set (subs (h ! b)) \<Longrightarrow> descendant h a c"

text \<open>
  \<open>SetLevel\<close> and \<open>With\<close> have one shape: change the node, then do the same on every
  child. \<open>propagate\<close> is that shape for a change \<open>g\<close> of one node, and
  \<open>applied g D h x\<close> says that \<open>x\<close> is the store \<open>h\<close> with \<open>g\<close> done on the nodes in
  \<open>D\<close> and on no other.
\<close>

fun propagate :: "nat \<Rightarrow> ('v logger \<Rightarrow> 'v logger) \<Rightarrow> addr \<Rightarrow> 'v heap \<Rightarrow> 'v heap option" where
  "propagate 0 g l h = None"
| "propagate (Suc k) g l h = range_subs (propagate k g) (subs (h ! l)) (h[l := g (h ! l)])"

definition cone :: "'v heap \<Rightarrow> addr \<Rightarrow> addr set" where
  "cone h l = insert l {d. descendant h l d}"

definition applied :: "('v logger \<Rightarrow> 'v logger) \<Rightarrow> addr set \<Rightarrow> 'v heap \<Rightarrow> 'v heap \<Rightarrow> bool" where
  "applied g D h x = (length x = length h \<and> (\<forall>a < length h. x ! a = (if a \<in> D then g (h ! a) else h ! a)))"

text \<open>
  \<open>extends h h'\<close>: the store \<open>h'\<close> has every node of \<open>h\<close>, and every child that a
  node has in \<open>h\<close> it has in \<open>h'\<close> under the same name.
\<close>

definition extends :: "'v heap \<Rightarrow> 'v heap \<Rightarrow> bool" where
  "extends h h' =
     (length h \<le> length h' \<and>
      (\<forall>a < length h. \<forall>n c. map_of (subs (h ! a)) n = Some c \<longrightarrow> map_of (subs (h' ! a)) n = Some c))"

text \<open>
  \<open>linked h\<close>: every child points back to its parent. \<open>del_key n\<close> is what
  \<open>With(n, nil)\<close> does to the node it is called on.
\<close>

definition linked :: "'v heap \<Rightarrow> bool" where
  "linked h = (\<forall>a < length h. \<forall>(n, c) \<in> set (subs (h ! a)). parent (h ! c) = Some a)"

definition del_key :: "string \<Rightarrow> 'v logger \<Rightarrow> 'v logger" where
  "del_key n x = x\<lparr>data := (data x)(n := None)\<rparr>"

text \<open>
  Two stores with two levels below \<open>top\<close>, for the examples: \<open>tree3\<close> is the chain
  \<open>top\<close>, \<open>svc\<close>, \<open>worker\<close>, and \<open>tree4\<close> has a second child \<open>api\<close> of \<open>top\<close> as well.
\<close>

definition tree3 :: "string heap" where
  "tree3 =
     [\<lparr>parent = None, name = [], level = 1, data = Map.empty, subs = [(''svc'', 1)],
       writer = Some os_Stderr, encoder = Some DefaultEncoder\<rparr>,
      \<lparr>parent = Some 0, name = ''svc'', level = 1, data = Map.empty, subs = [(''worker'', 2)],
       writer = Some os_Stderr, encoder = Some DefaultEncoder\<rparr>,
      \<lparr>parent = Some 1, name = ''worker'', level = 1, data = Map.empty, subs = [],
       writer = Some os_Stderr, encoder = Some DefaultEncoder\<rparr>]"

definition tree4 :: "string heap" where
  "tree4 =
     [\<lparr>parent = None, name = [], level = 1, data = Map.empty, subs = [(''svc'', 1), (''api'', 3)],
       writer = Some os_Stderr, encoder = Some DefaultEncoder\<rparr>,
      \<lparr>parent = Some 0, name = ''svc'', level = 1, data = Map.empty, subs = [(''worker'', 2)],
       writer = Some os_Stderr, encoder = Some DefaultEncoder\<rparr>,
      \<lparr>parent = Some 1, name = ''worker'', level = 1, data = Map.empty, subs = [],
       writer = Some os_Stderr, encoder = Some DefaultEncoder\<rparr>,
      \<lparr>parent = Some 0, name = ''api'', level = 1, data = Map.empty, subs = [],
       writer = Some os_Stderr, encoder = Some DefaultEncoder\<rparr>]"

text \<open>The node reached from \<open>l\<close> along a list of names, when every one is there.\<close>

fun walk :: "'v heap \<Rightarrow> addr \<Rightarrow> string list \<Rightarrow> addr option" where
  "walk h l [] = Some l"
| "walk h l (n # ns) = (case map_of (subs (h ! l)) n of None \<Rightarrow> None | Some c \<Rightarrow> walk h c ns)"

definition segments :: "string \<Rightarrow> string list" where
  "segments nm = filter (\<lambda>s. s \<noteq> []) (Split (CHR ''/'') nm)"

text \<open>The store right after \<open>init\<close> has made \<open>top\<close>; \<open>DebugLevel\<close> is not in the source files.\<close>

definition init_top :: "int \<Rightarrow> 'v heap" where
  "init_top DebugLevel =
     [\<lparr>parent = None, name = [], level = DebugLevel, data = Map.empty, subs = [],
       writer = Some os_Stderr, encoder = Some DefaultEncoder\<rparr>]"


section \<open>Examples\<close>

text \<open>
  A stand-in for the library functions, and two small stores, for the examples: a
  tree of \<open>top\<close> and its child \<open>svc\<close>, which holds a value of its own for the key
  \<open>k\<close>, and a single node whose encoder has no column.
\<close>

definition plain_lib :: "string golib" where
  "plain_lib =
     \<lparr>time_Format = (\<lambda>t f. f), Level_String = (\<lambda>l. ''info''),
      Sprintf_value = (\<lambda>f v. case v of nil \<Rightarrow> ''<nil>'' | Val s \<Rightarrow> s),
      keep_graphic = (\<lambda>s. s), path_Dir = (\<lambda>s. ''.''), path_Base = (\<lambda>s. s)\<rparr>"

definition family :: "string heap" where
  "family =
     [\<lparr>parent = None, name = [], level = 1, data = Map.empty, subs = [(''svc'', 1)],
       writer = Some os_Stderr, encoder = Some DefaultEncoder\<rparr>,
      \<lparr>parent = Some 0, name = ''svc'', level = 1, data = [''k'' \<mapsto> Val ''child''], subs = [],
       writer = Some os_Stderr, encoder = Some DefaultEncoder\<rparr>]"


definition unknown_caller :: Caller where
  "unknown_caller = \<lparr>Package = ''N/A'', Function = ''N/A'', File = ''N/A'', Line = - 1\<rparr>"

section \<open>Runes and padding\<close>














section \<open>The field-width function\<close>




text \<open>
  The bound on the width is needed as well: above \<open>1000000\<close>, \<open>fmt\<close> writes its
  markers for a bad width and a bad precision and then the string as it is.
\<close>

lemma textField_too_wide: "textField 1000001 ''ab'' = ''%!(BADWIDTH)%!(BADPREC)ab''"
  by (simp add: textField_def Sprintf_pad_def tooLarge_def)

section \<open>The caller resolver on a shallow stack\<close>

text \<open>
  C8. With a skip count above the number of frames on the stack, \<open>GetCaller\<close> returns
  (it does not panic), and the package, the function and the file of the descriptor
  are the marker \<open>N/A\<close>, the line is the marker \<open>-1\<close>: none is the empty string.
\<close>

theorem GetCaller_shallow:
  "skip > int (length stack) \<Longrightarrow>
     GetCaller lib stack skip = Inr unknown_caller
     \<and> Package unknown_caller = ''N/A'' \<and> Function unknown_caller = ''N/A''
     \<and> File unknown_caller = ''N/A'' \<and> Line unknown_caller = - 1"
  by (simp add: GetCaller_def Let_def unknown_caller_def)

theorem GetCaller_shallow_witness:
  "GetCaller plain_lib
     [\<lparr>frame_Function = ''runtime.Callers'', frame_File = ''extern.go'', frame_Line = 1\<rparr>,
      \<lparr>frame_Function = ''log.GetCaller'', frame_File = ''caller.go'', frame_Line = 31\<rparr>] 3
   = Inr \<lparr>Package = ''N/A'', Function = ''N/A'', File = ''N/A'', Line = - 1\<rparr>"
  using GetCaller_shallow[of
      "[\<lparr>frame_Function = ''runtime.Callers'', frame_File = ''extern.go'', frame_Line = 1\<rparr>,
        \<lparr>frame_Function = ''log.GetCaller'', frame_File = ''caller.go'', frame_Line = 31\<rparr>]"
      3 plain_lib]
  by (simp add: unknown_caller_def)

section \<open>The encoder\<close>

lemma encode_columns_length:
  "encode_columns lib k h l r cols acc = Some t \<Longrightarrow>
     length acc \<le> length t \<and> (cols \<noteq> [] \<longrightarrow> length acc < length t)"
proof (induction cols arbitrary: acc)
  case Nil
  then show ?case by simp
next
  case (Cons col cols)
  then show ?case by (fastforce split: option.splits)
qed

lemma Encode_newline:
  assumes "Encode lib k h ce l r = Some bytes"
  shows "(bytes \<noteq> [] \<and> last bytes = CHR 0x0A) = (columns ce \<noteq> [])"
proof -
  obtain t where t: "encode_columns lib k h l r (columns ce) [] = Some t"
    and b: "bytes = drop 1 (t @ [CHR 0x0A])"
    using assms by (auto simp: Encode_def split: option.splits)
  show ?thesis
  proof (cases "columns ce")
    case Nil
    then show ?thesis using t b by simp
  next
    case (Cons c cs)
    then have "0 < length t" using encode_columns_length[OF t] by simp
    then show ?thesis using b Cons by (cases t) auto
  qed
qed

text \<open>In a well-formed store the walks up the tree end, so every column has a text.\<close>

lemma Name_returns:
  "wf_heap h \<Longrightarrow> l < length h \<Longrightarrow> l < k \<Longrightarrow> \<exists>s. Name k h l = Some s"
proof (induction k arbitrary: l)
  case 0
  then show ?case by simp
next
  case (Suc k)
  show ?case
  proof (cases "parent (h ! l)")
    case None
    then show ?thesis by simp
  next
    case (Some p)
    then have "p < l" using Suc.prems by (auto simp: wf_heap_def)
    then have "p < length h" "p < k" using Suc.prems by auto
    then obtain s where "Name k h p = Some s" using Suc.IH Suc.prems(1) by blast
    then show ?thesis using Some by simp
  qed
qed

lemma Get_returns:
  "wf_heap h \<Longrightarrow> l < length h \<Longrightarrow> l < k \<Longrightarrow> \<exists>r. Get k h l n = Some r"
proof (induction k arbitrary: l)
  case 0
  then show ?case by simp
next
  case (Suc k)
  show ?case
  proof (cases "data (h ! l) n")
    case (Some v)
    then show ?thesis by auto
  next
    case None
    note d = None
    show ?thesis
    proof (cases "parent (h ! l)")
      case None
      then show ?thesis using d by auto
    next
      case (Some p)
      then have "p < l" using Suc.prems by (auto simp: wf_heap_def)
      then have "p < length h" "p < k" using Suc.prems by auto
      then obtain r where "Get k h p n = Some r" using Suc.IH Suc.prems(1) by blast
      then show ?thesis using Some d by simp
    qed
  qed
qed

lemma Text_returns:
  assumes "wf_heap h" "l < length h" "l < k"
  shows "\<exists>s. Text lib k h c l r = Some s"
proof (cases c)
  case (nameText w)
  then show ?thesis using Name_returns[OF assms] by auto
next
  case (dataText f nm w)
  then show ?thesis using Get_returns[OF assms, of nm] by auto
qed simp_all

lemma encode_columns_returns:
  assumes "wf_heap h" "l < length h" "l < k"
  shows "\<exists>t. encode_columns lib k h l r cols acc = Some t"
proof (induction cols arbitrary: acc)
  case Nil
  then show ?case by simp
next
  case (Cons col cols)
  obtain s where "Text lib k h (col_text col) l r = Some s"
    using Text_returns[OF assms] by blast
  then show ?case using Cons by simp
qed

lemma Encode_returns:
  assumes "wf_heap h" "l < length h" "l < k"
  shows "\<exists>bytes. Encode lib k h ce l r = Some bytes"
  using encode_columns_returns[OF assms, of lib r "columns ce" "[]"]
  by (auto simp: Encode_def)

lemma wf_init_top: "wf_heap (init_top lv)"
  by (simp add: wf_heap_def init_top_def)

text \<open>
  C9. An encoder with no column encodes every record as the empty byte sequence:
  the joined text is the newline alone, and the slice from offset 1 drops it.
  Whenever \<open>Encode\<close> returns, what it returns ends in a newline exactly when the
  encoder has a column.
\<close>

theorem Encode_no_columns:
  "Encode lib k h NewColumnEncoder l r = Some []
   \<and> (\<forall>ce. columns ce = [] \<longrightarrow> Encode lib k h ce l r = Some [])
   \<and> (\<forall>ce bytes. Encode lib k h ce l r = Some bytes \<longrightarrow>
         ((bytes \<noteq> [] \<and> last bytes = CHR 0x0A) = (columns ce \<noteq> [])))"
proof (intro conjI allI impI)
  show "Encode lib k h NewColumnEncoder l r = Some []"
    by (simp add: Encode_def NewColumnEncoder_def)
  show "Encode lib k h ce l r = Some []" if "columns ce = []" for ce
    using that by (simp add: Encode_def)
  show "(bytes \<noteq> [] \<and> last bytes = CHR 0x0A) = (columns ce \<noteq> [])"
    if "Encode lib k h ce l r = Some bytes" for ce bytes
    using that by (rule Encode_newline)
qed

theorem Encode_no_columns_witness:
  "Encode plain_lib 1 (init_top 1) \<lparr>columns = []\<rparr> top
       \<lparr>Time = 0, Caller = unknown_caller, Level = 1, Message = ''y''\<rparr> = Some []
   \<and> (\<exists>bytes. Encode plain_lib 1 (init_top 1) DefaultEncoder top
         \<lparr>Time = 0, Caller = unknown_caller, Level = 1, Message = ''y''\<rparr> = Some bytes
       \<and> bytes \<noteq> [] \<and> last bytes = CHR 0x0A)"
proof -
  note t = Encode_no_columns[of plain_lib 1 "init_top 1" top
      "\<lparr>Time = 0, Caller = unknown_caller, Level = 1, Message = ''y''\<rparr>"]
  have c: "columns DefaultEncoder \<noteq> []"
    by (simp add: DefaultEncoder_def columnEncoder_With_def NewColumnEncoder_def)
  obtain bytes where b: "Encode plain_lib 1 (init_top 1) DefaultEncoder top
      \<lparr>Time = 0, Caller = unknown_caller, Level = 1, Message = ''y''\<rparr> = Some bytes"
    using Encode_returns[of "init_top 1" top 1 plain_lib DefaultEncoder
        "\<lparr>Time = 0, Caller = unknown_caller, Level = 1, Message = ''y''\<rparr>"] wf_init_top[of 1]
    by (auto simp: top_def init_top_def)
  have "bytes \<noteq> [] \<and> last bytes = CHR 0x0A" using t b c by blast
  then show ?thesis using t b by auto
qed

section \<open>Writing a record\<close>






section \<open>Names that fail the pattern\<close>

text \<open>
  C10. With a name that fails the pattern, \<open>Set\<close> panics, and \<open>With\<close> returns the
  logger it was called on and leaves the whole store as it was.
\<close>

theorem Invalid_name_Set_With:
  "\<not> ValidName n \<Longrightarrow> Set l n v h = Inl (InvalidSetName n) \<and> With (Suc k) l n v h = Some (l, h)"
  by (simp add: Set_def)

theorem Invalid_name_Set_With_witness:
  "Set top ''Bad'' (Val ''v'') family = Inl (InvalidSetName ''Bad'')
   \<and> With 1 top ''Bad'' (Val ''v'') family = Some (top, family)"
  using Invalid_name_Set_With[of "''Bad''" top "Val ''v''" family 0]
  by (simp add: ValidName_def lower_def)


section \<open>Creating a child\<close>

lemma logger_Logger_new:
  assumes "ValidName n" "map_of (subs (h ! p)) n = None"
  shows "logger_Logger p n h =
     (Inr (length h),
      h[p := (h ! p)\<lparr>subs := subs (h ! p) @ [(n, length h)]\<rparr>]
        @ [\<lparr>parent = Some p, name = n, level = level (h ! p), data = Map.empty, subs = [],
            writer = writer (h ! p), encoder = encoder (h ! p)\<rparr>])"
  using assms by (simp add: logger_Logger_def Let_def)

lemma logger_Logger_found:
  assumes "ValidName n" "map_of (subs (h ! p)) n = Some c"
  shows "logger_Logger p n h = (Inr c, h)"
  using assms by (simp add: logger_Logger_def)

text \<open>
  C3. Looking up a valid name that \<open>p\<close> has no child for makes a new node: it is a
  child of \<open>p\<close> under that name, its level, writer and encoder are those of \<open>p\<close> at
  this moment, and its data map is empty. The two data maps are apart: a \<open>Set\<close> on
  \<open>p\<close> afterwards leaves the map of the child empty, and a \<open>Set\<close> on the child leaves
  the map of \<open>p\<close> as it was.
\<close>

theorem Logger_creates_child:
  assumes "ValidName n" "map_of (subs (h ! p)) n = None" "p < length h"
  shows "\<exists>c h'. logger_Logger p n h = (Inr c, h') \<and> c = length h \<and> length h' = Suc (length h)
           \<and> level (h' ! c) = level (h ! p) \<and> writer (h' ! c) = writer (h ! p)
           \<and> encoder (h' ! c) = encoder (h ! p) \<and> data (h' ! c) = Map.empty
           \<and> parent (h' ! c) = Some p \<and> name (h' ! c) = n \<and> subs (h' ! c) = []
           \<and> map_of (subs (h' ! p)) n = Some c \<and> data (h' ! p) = data (h ! p)
           \<and> (\<forall>k v h''. Set p k v h' = Inr h'' \<longrightarrow>
                 data (h'' ! c) = Map.empty \<and> data (h'' ! p) = (data (h ! p))(k \<mapsto> v))
           \<and> (\<forall>k v h''. Set c k v h' = Inr h'' \<longrightarrow>
                 data (h'' ! p) = data (h ! p) \<and> data (h'' ! c) = [k \<mapsto> v])"
proof -
  define h' where "h' = h[p := (h ! p)\<lparr>subs := subs (h ! p) @ [(n, length h)]\<rparr>]
        @ [\<lparr>parent = Some p, name = n, level = level (h ! p), data = Map.empty, subs = [],
            writer = writer (h ! p), encoder = encoder (h ! p)\<rparr>]"
  have L: "logger_Logger p n h = (Inr (length h), h')"
    using logger_Logger_new[OF assms(1,2)] by (simp add: h'_def)
  have len: "length h' = Suc (length h)" by (simp add: h'_def)
  have c: "h' ! length h = \<lparr>parent = Some p, name = n, level = level (h ! p), data = Map.empty,
      subs = [], writer = writer (h ! p), encoder = encoder (h ! p)\<rparr>"
    by (simp add: h'_def nth_append)
  have p: "h' ! p = (h ! p)\<lparr>subs := subs (h ! p) @ [(n, length h)]\<rparr>"
    using assms(3) by (simp add: h'_def nth_append)
  have m: "map_of (subs (h' ! p)) n = Some (length h)"
    using assms(2) by (simp add: p map_add_def)
  have S1: "data (h'' ! length h) = Map.empty \<and> data (h'' ! p) = (data (h ! p))(k \<mapsto> v)"
    if "Set p k v h' = Inr h''" for k v h''
    using that assms(3) len c p by (auto simp: Set_def split: if_splits)
  have S2: "data (h'' ! p) = data (h ! p) \<and> data (h'' ! length h) = [k \<mapsto> v]"
    if "Set (length h) k v h' = Inr h''" for k v h''
    using that assms(3) len c p by (auto simp: Set_def split: if_splits)
  show ?thesis
    using L len c p m S1 S2 by (intro exI[of _ "length h"] exI[of _ h']) simp
qed

theorem Logger_creates_child_witness:
  "\<exists>h' h2 h3. logger_Logger top ''api'' family = (Inr 2, h')
      \<and> level (h' ! 2) = 1 \<and> writer (h' ! 2) = Some os_Stderr
      \<and> encoder (h' ! 2) = Some DefaultEncoder \<and> data (h' ! 2) = Map.empty
      \<and> Set top ''k'' (Val ''v'') h' = Inr h2 \<and> data (h2 ! 2) = Map.empty
      \<and> Set 2 ''k'' (Val ''v'') h' = Inr h3 \<and> data (h3 ! top) = Map.empty"
proof -
  have a: "ValidName ''api''" "map_of (subs (family ! top)) ''api'' = None" "top < length family"
    by (simp_all add: ValidName_def lower_def alnum_def name_body_def family_def top_def)
  from Logger_creates_child[OF a] obtain c h' where
    L: "logger_Logger top ''api'' family = (Inr c, h')" and
    c: "c = length family" and
    f: "level (h' ! c) = level (family ! top)" "writer (h' ! c) = writer (family ! top)"
       "encoder (h' ! c) = encoder (family ! top)" "data (h' ! c) = Map.empty" and
    S1: "\<forall>k v h''. Set top k v h' = Inr h'' \<longrightarrow>
           data (h'' ! c) = Map.empty \<and> data (h'' ! top) = (data (family ! top))(k \<mapsto> v)" and
    S2: "\<forall>k v h''. Set c k v h' = Inr h'' \<longrightarrow>
           data (h'' ! top) = data (family ! top) \<and> data (h'' ! c) = [k \<mapsto> v]"
    by blast
  have c2: "c = 2" using c by (simp add: family_def)
  have t: "level (family ! top) = 1" "writer (family ! top) = Some os_Stderr"
    "encoder (family ! top) = Some DefaultEncoder" "data (family ! top) = Map.empty"
    by (simp_all add: family_def top_def)
  have k: "ValidName ''k''" by (simp add: ValidName_def lower_def)
  obtain h2 where h2: "Set top ''k'' (Val ''v'') h' = Inr h2" using k by (simp add: Set_def)
  obtain h3 where h3: "Set 2 ''k'' (Val ''v'') h' = Inr h3" using k by (simp add: Set_def)
  have d2: "data (h2 ! 2) = Map.empty" using S1 h2 c2 by blast
  have d3: "data (h3 ! top) = Map.empty" using S2 h3 c2 t by auto
  show ?thesis using L f h2 h3 d2 d3 c2 t by auto
qed

section \<open>Set and the values of the children\<close>

text \<open>
  The store \<open>family\<close> is one the code builds: \<open>top.Logger("svc")\<close> on the first store,
  then \<open>Set("k", "child")\<close> on the child.
\<close>

lemma family_built:
  "\<exists>h1. logger_Logger top ''svc'' (init_top 1) = (Inr 1, h1) \<and> Set 1 ''k'' (Val ''child'') h1 = Inr family"
  by (simp add: logger_Logger_def Set_def init_top_def family_def top_def ValidName_def lower_def alnum_def name_body_def)

text \<open>
  C1 says that \<open>Set(k, v)\<close> on a node removes \<open>k\<close> from the data of every descendant,
  as the comment of the interface does (\<open>Set a name-value and remove it from all
  children\<close>). The method \<open>Set\<close> writes the data of its own node only: on \<open>family\<close>,
  after \<open>Set("k", "new")\<close> on \<open>top\<close> the child still holds \<open>"child"\<close> for \<open>k\<close>, and
  \<open>Get\<close> on the child returns it.
\<close>

theorem Set_keeps_child_value:
  "\<exists>h'. Set top ''k'' (Val ''new'') family = Inr h'
      \<and> data (h' ! top) ''k'' = Some (Val ''new'')
      \<and> data (h' ! 1) ''k'' = Some (Val ''child'')
      \<and> Get 2 h' 1 ''k'' = Some (Val ''child'', True)"
  by (simp add: Set_def family_def top_def ValidName_def lower_def eval_nat_numeral)

text \<open>\<open>With\<close>, on the same store and with the same arguments, does remove it.\<close>

lemma With_clears_child_value:
  "\<exists>h'. With 2 top ''k'' (Val ''new'') family = Some (top, h')
      \<and> data (h' ! top) ''k'' = Some (Val ''new'')
      \<and> data (h' ! 1) ''k'' = None
      \<and> Get 2 h' 1 ''k'' = Some (Val ''new'', True)"
  by (simp add: family_def top_def ValidName_def lower_def eval_nat_numeral)

section \<open>Propagation down the tree\<close>

lemma wf_child:
  "wf_heap h \<Longrightarrow> a < length h \<Longrightarrow> (n, c) \<in> set (subs (h ! a)) \<Longrightarrow> a < c \<and> c < length h"
  by (auto simp: wf_heap_def)

lemma descendant_gt: "descendant h l d \<Longrightarrow> wf_heap h \<Longrightarrow> l < d \<and> d < length h"
proof (induction rule: descendant.induct)
  case (child n c)
  then show ?case using wf_child by blast
next
  case (below b n c)
  then show ?case using wf_child[of h b n c] by auto
qed

lemma descendant_trans_child:
  "descendant h c d \<Longrightarrow> l < length h \<Longrightarrow> (n, c) \<in> set (subs (h ! l)) \<Longrightarrow> descendant h l d"
proof (induction rule: descendant.induct)
  case (child m e)
  then show ?case by (meson descendant.intros)
next
  case (below b m e)
  then show ?case by (meson descendant.intros)
qed

lemma descendant_first:
  "descendant h l d \<Longrightarrow> \<exists>n c. l < length h \<and> (n, c) \<in> set (subs (h ! l)) \<and> (d = c \<or> descendant h c d)"
proof (induction rule: descendant.induct)
  case (child n c)
  then show ?case by blast
next
  case (below b n c)
  then obtain m e where e: "l < length h" "(m, e) \<in> set (subs (h ! l))" "b = e \<or> descendant h e b"
    by blast
  have "descendant h e c" using e(3) below.hyps(2,3) by (meson descendant.intros)
  then show ?case using e by blast
qed

lemma cone_unfold:
  "l < length h \<Longrightarrow> cone h l = insert l (\<Union>(n, c) \<in> set (subs (h ! l)). cone h c)"
  unfolding cone_def
  apply (rule set_eqI)
  apply (rule iffI)
  subgoal for d using descendant_first[of h l d] by auto
  subgoal for d by (auto intro: descendant.child descendant_trans_child)
  done

lemma descendant_cong_imp:
  "descendant h l d \<Longrightarrow> length x = length h \<Longrightarrow> (\<forall>a < length h. subs (x ! a) = subs (h ! a))
     \<Longrightarrow> descendant x l d"
proof (induction rule: descendant.induct)
  case (child n c)
  then show ?case by (metis descendant.child)
next
  case (below b n c)
  then show ?case by (metis descendant.below)
qed

lemma cone_cong:
  assumes "length x = length h" "\<forall>a < length h. subs (x ! a) = subs (h ! a)"
  shows "cone x l = cone h l"
  unfolding cone_def using descendant_cong_imp[of h l _ x] descendant_cong_imp[of x l _ h] assms
  by auto

lemma applied_refl: "applied g {} h h"
  by (simp add: applied_def)

lemma applied_update: "l < length h \<Longrightarrow> applied g {l} h (h[l := g (h ! l)])"
  by (auto simp: applied_def nth_list_update)

lemma applied_trans:
  assumes "applied g D h x" "applied g E x y" "\<And>n. g (g n) = g n"
  shows "applied g (D \<union> E) h y"
  using assms by (auto simp: applied_def)

lemma applied_links:
  assumes "applied g D h x" "\<And>n. subs (g n) = subs n"
  shows "length x = length h \<and> (\<forall>a < length h. subs (x ! a) = subs (h ! a))"
  using assms by (auto simp: applied_def)

lemma applied_wf:
  assumes "applied g D h x" "\<And>n. subs (g n) = subs n" "\<And>n. parent (g n) = parent n" "wf_heap h"
  shows "wf_heap x"
proof -
  have len: "length x = length h" using assms(1) by (simp add: applied_def)
  have s: "subs (x ! a) = subs (h ! a)" "parent (x ! a) = parent (h ! a)" if "a < length h" for a
    using assms(1,2,3) that by (auto simp: applied_def)
  show ?thesis using assms(4) len s unfolding wf_heap_def by auto
qed


lemma range_subs_applied:
  assumes g: "\<And>n. g (g n) = g n" "\<And>n. subs (g n) = subs n" "\<And>n. parent (g n) = parent n"
    and wf: "wf_heap (h :: 'v heap)"
    and step: "\<And>n c x. (n, c) \<in> set xs \<Longrightarrow> wf_heap x \<Longrightarrow> length x = length h
                 \<Longrightarrow> (\<forall>a < length h. subs (x ! a) = subs (h ! a))
                 \<Longrightarrow> \<exists>y. f c x = Some y \<and> applied g (cone h c) x y"
    and x: "applied g D h x"
  shows "\<exists>h'. range_subs f xs x = Some h' \<and> applied g (D \<union> (\<Union>(n, c) \<in> set xs. cone h c)) h h'"
  using step x
proof (induction xs arbitrary: x D)
  case Nil
  then show ?case by simp
next
  case (Cons nc xs)
  obtain n c where nc: "nc = (n, c)" by (cases nc)
  have wx: "wf_heap x" using applied_wf[OF Cons.prems(2) g(2,3) wf] .
  have lx: "length x = length h \<and> (\<forall>a < length h. subs (x ! a) = subs (h ! a))"
    using applied_links[OF Cons.prems(2) g(2)] .
  obtain y where y: "f c x = Some y" "applied g (cone h c) x y"
    using Cons.prems(1)[of n c x] nc wx lx by auto
  have hy: "applied g (D \<union> cone h c) h y"
    using applied_trans[OF Cons.prems(2) y(2) g(1)] .
  have "\<exists>h'. range_subs f xs y = Some h'
          \<and> applied g ((D \<union> cone h c) \<union> (\<Union>(n, c) \<in> set xs. cone h c)) h h'"
  proof (rule Cons.IH[OF _ hy])
    fix n' c' and x' :: "'v heap"
    assume "(n', c') \<in> set xs" "wf_heap x'" "length x' = length h"
      "\<forall>a < length h. subs (x' ! a) = subs (h ! a)"
    then show "\<exists>y. f c' x' = Some y \<and> applied g (cone h c') x' y"
      using Cons.prems(1)[of n' c' x'] by simp
  qed
  then obtain h' where h': "range_subs f xs y = Some h'"
    "applied g ((D \<union> cone h c) \<union> (\<Union>(n, c) \<in> set xs. cone h c)) h h'" by blast
  have eq: "(D \<union> cone h c) \<union> (\<Union>(n, c) \<in> set xs. cone h c)
      = D \<union> (\<Union>(n, c) \<in> set (nc # xs). cone h c)"
    using nc by auto
  show ?case using y(1) h' nc eq by simp
qed

lemma propagate_applied:
  assumes g: "\<And>n. g (g n) = g n" "\<And>n. subs (g n) = subs n" "\<And>n. parent (g n) = parent n"
  shows "wf_heap (h :: 'v heap) \<Longrightarrow> l < length h \<Longrightarrow> length h - l \<le> k
     \<Longrightarrow> \<exists>h'. propagate k g l h = Some h' \<and> applied g (cone h l) h h'"
proof (induction k arbitrary: l h)
  case 0
  then show ?case by simp
next
  case (Suc k)
  have up: "applied g {l} h (h[l := g (h ! l)])" using applied_update[OF Suc.prems(2)] .
  have "\<exists>h'. range_subs (propagate k g) (subs (h ! l)) (h[l := g (h ! l)]) = Some h'
          \<and> applied g ({l} \<union> (\<Union>(n, c) \<in> set (subs (h ! l)). cone h c)) h h'"
  proof (rule range_subs_applied[OF g Suc.prems(1) _ up])
    fix n c and x :: "'v heap"
    assume a: "(n, c) \<in> set (subs (h ! l))" "wf_heap x" "length x = length h"
      "\<forall>a < length h. subs (x ! a) = subs (h ! a)"
    have c: "l < c \<and> c < length h" using wf_child[OF Suc.prems(1,2) a(1)] .
    then have "\<exists>y. propagate k g c x = Some y \<and> applied g (cone x c) x y"
      using Suc.IH[of x c] a(2,3) Suc.prems(3) by auto
    then show "\<exists>y. propagate k g c x = Some y \<and> applied g (cone h c) x y"
      using cone_cong[OF a(3,4)] by simp
  qed
  then show ?case using cone_unfold[OF Suc.prems(2)] by simp
qed

lemma SetLevel_propagate:
  "minLevel \<le> lv \<Longrightarrow> lv \<le> maxLevel
     \<Longrightarrow> SetLevel k minLevel maxLevel l lv (h :: 'v heap) = propagate k (\<lambda>n. n\<lparr>level := lv\<rparr>) l h"
proof (induction k arbitrary: l h)
  case 0
  then show ?case by simp
next
  case (Suc k)
  have "(\<lambda>ll. SetLevel k minLevel maxLevel ll lv) = propagate k (\<lambda>n :: 'v logger. n\<lparr>level := lv\<rparr>)"
    using Suc by (intro ext) simp
  then show ?case using Suc.prems by simp
qed

text \<open>
  C2. On a node of a well-formed store, with a bound of at least the size of the store:
  when the level is within \<open>[minLevel, maxLevel]\<close>, \<open>SetLevel\<close> returns, and the new
  store is the old one with the level of the node and of each of its descendants set
  to the given level and nothing else changed; a child created afterwards on the node
  or on a descendant has the new level. When the level is out of range, \<open>SetLevel\<close>
  returns the store as it was.
\<close>

theorem SetLevel_sets_subtree:
  assumes "wf_heap h" "l < length h" "length h \<le> k"
  shows "(minLevel \<le> lv \<and> lv \<le> maxLevel \<longrightarrow>
            (\<exists>h'. SetLevel k minLevel maxLevel l lv h = Some h' \<and> length h' = length h
               \<and> (\<forall>d < length h. h' ! d =
                     (if d = l \<or> descendant h l d then (h ! d)\<lparr>level := lv\<rparr> else h ! d))
               \<and> (\<forall>d n. (d = l \<or> descendant h l d) \<and> ValidName n \<and> map_of (subs (h' ! d)) n = None \<longrightarrow>
                     (\<exists>c h''. logger_Logger d n h' = (Inr c, h'') \<and> c = length h'
                        \<and> parent (h'' ! c) = Some d \<and> level (h'' ! c) = lv))))
     \<and> (\<not> (minLevel \<le> lv \<and> lv \<le> maxLevel) \<longrightarrow> SetLevel k minLevel maxLevel l lv h = Some h)"
proof (intro conjI impI)
  assume r: "minLevel \<le> lv \<and> lv \<le> maxLevel"
  have "length h - l \<le> k" using assms(3) by simp
  then obtain h' where h': "propagate k (\<lambda>n. n\<lparr>level := lv\<rparr>) l h = Some h'"
      "applied (\<lambda>n. n\<lparr>level := lv\<rparr>) (cone h l) h h'"
    using propagate_applied[of "\<lambda>n. n\<lparr>level := lv\<rparr>" h l k] assms(1,2) by auto
  have S: "SetLevel k minLevel maxLevel l lv h = Some h'"
    using SetLevel_propagate[of minLevel lv maxLevel k l h] r h'(1) by simp
  have len: "length h' = length h" using h'(2) by (simp add: applied_def)
  have nodes: "\<forall>d < length h. h' ! d =
      (if d = l \<or> descendant h l d then (h ! d)\<lparr>level := lv\<rparr> else h ! d)"
    using h'(2) by (simp add: applied_def cone_def)
  have new: "\<exists>c h''. logger_Logger d n h' = (Inr c, h'') \<and> c = length h'
                        \<and> parent (h'' ! c) = Some d \<and> level (h'' ! c) = lv"
    if d: "(d = l \<or> descendant h l d) \<and> ValidName n \<and> map_of (subs (h' ! d)) n = None" for d n
  proof -
    have dl: "d < length h" using d assms(1,2) descendant_gt[of h l d] by auto
    then have "level (h' ! d) = lv" using nodes d by simp
    then show ?thesis
      using logger_Logger_new[of n h' d] d by (simp add: nth_append)
  qed
  show "\<exists>h'. SetLevel k minLevel maxLevel l lv h = Some h' \<and> length h' = length h
               \<and> (\<forall>d < length h. h' ! d =
                     (if d = l \<or> descendant h l d then (h ! d)\<lparr>level := lv\<rparr> else h ! d))
               \<and> (\<forall>d n. (d = l \<or> descendant h l d) \<and> ValidName n \<and> map_of (subs (h' ! d)) n = None \<longrightarrow>
                     (\<exists>c h''. logger_Logger d n h' = (Inr c, h'') \<and> c = length h'
                        \<and> parent (h'' ! c) = Some d \<and> level (h'' ! c) = lv))"
    using S len nodes new by (intro exI[of _ h']) blast
next
  assume "\<not> (minLevel \<le> lv \<and> lv \<le> maxLevel)"
  moreover have "k \<noteq> 0" using assms(2,3) by auto
  ultimately show "SetLevel k minLevel maxLevel l lv h = Some h"
    by (cases k) auto
qed


lemma wf_tree4: "wf_heap tree4"
  by (simp add: wf_heap_def tree4_def less_Suc_eq eval_nat_numeral)

theorem SetLevel_sets_subtree_witness:
  "(\<exists>h'. SetLevel 4 0 5 1 3 tree4 = Some h'
      \<and> level (h' ! 1) = 3 \<and> level (h' ! 2) = 3 \<and> h' ! 0 = tree4 ! 0
      \<and> (\<exists>c h''. logger_Logger 2 ''job'' h' = (Inr c, h'') \<and> level (h'' ! c) = 3))
   \<and> SetLevel 4 0 5 1 9 tree4 = Some tree4"
proof -
  have len: "length tree4 = 4" by (simp add: tree4_def)
  have a: "(1::nat) < length tree4" "length tree4 \<le> 4" using len by simp_all
  note t = SetLevel_sets_subtree[OF wf_tree4 a]
  have d2: "descendant tree4 1 2"
    by (rule descendant.child[of _ _ "''worker''"]) (simp_all add: tree4_def)
  have d0: "\<not> descendant tree4 1 0" using descendant_gt[OF _ wf_tree4, of 1 0] by auto
  from t[of 0 3 5] obtain h' where h': "SetLevel 4 0 5 1 3 tree4 = Some h'"
    and nodes: "\<forall>d < length tree4. h' ! d =
        (if d = 1 \<or> descendant tree4 1 d then (tree4 ! d)\<lparr>level := 3\<rparr> else tree4 ! d)"
    and new: "\<forall>d n. (d = 1 \<or> descendant tree4 1 d) \<and> ValidName n \<and> map_of (subs (h' ! d)) n = None \<longrightarrow>
        (\<exists>c h''. logger_Logger d n h' = (Inr c, h'') \<and> c = length h'
            \<and> parent (h'' ! c) = Some d \<and> level (h'' ! c) = 3)"
    by auto
  have n1: "h' ! 1 = (tree4 ! 1)\<lparr>level := 3\<rparr>" using nodes len by simp
  have n2: "h' ! 2 = (tree4 ! 2)\<lparr>level := 3\<rparr>" using nodes len d2 by simp
  have n0: "h' ! 0 = tree4 ! 0" using nodes len d0 by simp
  have v: "ValidName ''job''" by (simp add: ValidName_def lower_def alnum_def name_body_def)
  have "map_of (subs (h' ! 2)) ''job'' = None" using n2 by (simp add: tree4_def)
  then have c: "\<exists>c h''. logger_Logger 2 ''job'' h' = (Inr c, h'') \<and> level (h'' ! c) = 3"
    using new d2 v by blast
  have o: "SetLevel 4 0 5 1 9 tree4 = Some tree4" using t[of 0 9 5] by simp
  show ?thesis using h' n1 n2 n0 c o by simp
qed

section \<open>With and the values of the descendants\<close>

text \<open>
  What the comment of the interface says of \<open>Set\<close> holds of \<open>With\<close>: on a node of a well-formed store whose
  children point back to their parents, \<open>With(n, v)\<close> with a valid name and a value
  other than nil puts \<open>n \<mapsto> v\<close> into the data of the node, removes \<open>n\<close> from the
  data of every descendant, and \<open>Get(n)\<close> on every descendant then returns
  \<open>(v, true)\<close>.
\<close>

lemma With_nil_propagate:
  "ValidName n \<Longrightarrow> map_option snd (With k l n nil (h :: 'v heap)) = propagate k (del_key n) l h"
proof (induction k arbitrary: l h)
  case 0
  then show ?case by simp
next
  case (Suc k)
  have "(\<lambda>ll h'. map_option snd (With k ll n nil (h' :: 'v heap))) = propagate k (del_key n)"
    using Suc by (intro ext) simp
  moreover have "(h ! l)\<lparr>data := (data (h ! l))(n := None)\<rparr> = del_key n (h ! l)"
    by (simp add: del_key_def)
  ultimately show ?case using Suc.prems by (simp add: option.map_comp comp_def option.map_ident)
qed

lemma With_value_range:
  assumes "ValidName n" "v \<noteq> nil"
  shows "With (Suc k) l n v (h :: 'v heap) =
     map_option (Pair l)
       (range_subs (propagate k (del_key n)) (subs (h ! l)) (h[l := (h ! l)\<lparr>data := (data (h ! l))(n \<mapsto> v)\<rparr>]))"
proof -
  have "(\<lambda>ll h'. map_option snd (With k ll n nil (h' :: 'v heap))) = propagate k (del_key n)"
    by (intro ext) (simp add: With_nil_propagate[OF assms(1)])
  then show ?thesis using assms by simp
qed

lemma With_pushes_down:
  assumes wf: "wf_heap (h :: 'v heap)" and l: "l < length h" and k: "length h \<le> k"
    and n: "ValidName n" and v: "v \<noteq> nil"
  shows "\<exists>h'. With k l n v h = Some (l, h') \<and> length h' = length h
     \<and> h' ! l = (h ! l)\<lparr>data := (data (h ! l))(n \<mapsto> v)\<rparr>
     \<and> (\<forall>d < length h. d \<noteq> l \<longrightarrow> h' ! d = (if descendant h l d then del_key n (h ! d) else h ! d))"
proof -
  obtain k' where k': "k = Suc k'" using l k by (cases k) auto
  define h1 where "h1 = h[l := (h ! l)\<lparr>data := (data (h ! l))(n \<mapsto> v)\<rparr>]"
  have len1: "length h1 = length h" by (simp add: h1_def)
  have s1: "\<forall>a < length h. subs (h1 ! a) = subs (h ! a)"
    using l by (auto simp: h1_def nth_list_update)
  have p1: "\<forall>a < length h. parent (h1 ! a) = parent (h ! a)"
    using l by (auto simp: h1_def nth_list_update)
  have wf1: "wf_heap h1" using wf len1 s1 p1 unfolding wf_heap_def by auto
  have g: "\<And>x :: 'v logger. del_key n (del_key n x) = del_key n x"
    "\<And>x :: 'v logger. subs (del_key n x) = subs x" "\<And>x :: 'v logger. parent (del_key n x) = parent x"
    by (simp_all add: del_key_def)
  have "\<exists>h'. range_subs (propagate k' (del_key n)) (subs (h ! l)) h1 = Some h'
          \<and> applied (del_key n) ({} \<union> (\<Union>(m, c) \<in> set (subs (h ! l)). cone h1 c)) h1 h'"
  proof (rule range_subs_applied[OF g wf1 _ applied_refl])
    fix m c and x :: "'v heap"
    assume a: "(m, c) \<in> set (subs (h ! l))" "wf_heap x" "length x = length h1"
      "\<forall>a < length h1. subs (x ! a) = subs (h1 ! a)"
    have c: "l < c \<and> c < length h" using wf_child[OF wf l a(1)] .
    then have "\<exists>y. propagate k' (del_key n) c x = Some y \<and> applied (del_key n) (cone x c) x y"
      using propagate_applied[OF g, of x c k'] a(2,3) len1 k k' by auto
    then show "\<exists>y. propagate k' (del_key n) c x = Some y \<and> applied (del_key n) (cone h1 c) x y"
      using cone_cong[OF a(3,4)] by simp
  qed
  then obtain h' where h': "range_subs (propagate k' (del_key n)) (subs (h ! l)) h1 = Some h'"
      "applied (del_key n) (\<Union>(m, c) \<in> set (subs (h ! l)). cone h1 c) h1 h'" by auto
  define X where "X = (\<Union>(m, c) \<in> set (subs (h ! l)). cone h1 c)"
  have hX: "applied (del_key n) X h1 h'" using h'(2) by (simp add: X_def)
  have cones: "X = {d. descendant h l d}"
  proof -
    have "cone h1 c = cone h c" for c using cone_cong[OF len1 s1] .
    then have A: "insert l X = insert l {d. descendant h l d}"
      using cone_unfold[OF l] by (simp add: cone_def X_def)
    have B: "l \<notin> {d. descendant h l d}" using descendant_gt[OF _ wf, of l l] by auto
    have C: "l \<notin> X"
    proof
      assume "l \<in> X"
      then obtain m c where mc: "(m, c) \<in> set (subs (h ! l))" "l \<in> cone h1 c"
        by (auto simp: X_def)
      have "l < c" using wf_child[OF wf l mc(1)] by simp
      moreover have "c \<le> l" using mc(2) descendant_gt[OF _ wf1, of c l] by (auto simp: cone_def)
      ultimately show False by simp
    qed
    show ?thesis using A insert_ident[OF C B] by simp
  qed
  have W: "With k l n v h = Some (l, h')"
    using With_value_range[OF n v, of k' l h] h'(1) k' by (simp add: h1_def)
  have len: "length h' = length h" using hX len1 by (simp add: applied_def)
  have nodes: "h' ! a = (if descendant h l a then del_key n (h1 ! a) else h1 ! a)" if "a < length h" for a
    using hX that len1 by (simp add: applied_def cones)
  have nl: "\<not> descendant h l l" using descendant_gt[OF _ wf, of l l] by auto
  have root: "h' ! l = (h ! l)\<lparr>data := (data (h ! l))(n \<mapsto> v)\<rparr>"
    using nodes[OF l] nl l by (simp add: h1_def)
  have rest: "\<forall>d < length h. d \<noteq> l \<longrightarrow> h' ! d = (if descendant h l d then del_key n (h ! d) else h ! d)"
    using nodes by (simp add: h1_def)
  show ?thesis using W len root rest by blast
qed

lemma linked_child:
  "linked h \<Longrightarrow> a < length h \<Longrightarrow> (n, c) \<in> set (subs (h ! a)) \<Longrightarrow> parent (h ! c) = Some a"
  by (fastforce simp: linked_def)

lemma Get_after_With:
  assumes "descendant h l d" "wf_heap h" "linked h"
    and same: "length h' = length h" "\<forall>a < length h. subs (h' ! a) = subs (h ! a) \<and> parent (h' ! a) = parent (h ! a)"
    and root: "data (h' ! l) n = Some v"
    and below: "\<forall>d < length h. descendant h l d \<longrightarrow> data (h' ! d) n = None"
  shows "d < k \<Longrightarrow> Get k h' d n = Some (v, True)"
  using assms(1) 
proof (induction arbitrary: k rule: descendant.induct)
  case (child m c)
  have c: "l < c \<and> c < length h" using wf_child[OF assms(2) child.hyps] .
  have "descendant h l c" using child.hyps by (rule descendant.child)
  then have dn: "data (h' ! c) n = None" using below c by simp
  have pc: "parent (h' ! c) = Some l" using linked_child[OF assms(3) child.hyps] c same by simp
  obtain k1 where k1: "k = Suc k1" using child.prems by (cases k) auto
  obtain k2 where k2: "k1 = Suc k2" using child.prems c k1 by (cases k1) auto
  show ?case using dn pc root by (simp add: k1 k2)
next
  case (below b m c)
  have c: "b < c \<and> c < length h" using wf_child[OF assms(2) below.hyps(2,3)] .
  have "descendant h l c" using below.hyps by (rule descendant.below)
  then have dn: "data (h' ! c) n = None" using assms(7) c by simp
  have pc: "parent (h' ! c) = Some b" using linked_child[OF assms(3) below.hyps(2,3)] c same by simp
  obtain k1 where k1: "k = Suc k1" using below.prems by (cases k) auto
  have "b < k1" using c below.prems k1 by simp
  then have "Get k1 h' b n = Some (v, True)" using below.IH by simp
  then show ?case using dn pc by (simp add: k1)
qed


lemma With_reinherits:
  assumes wf: "wf_heap (h :: 'v heap)" and li: "linked h" and l: "l < length h" and k: "length h \<le> k"
    and n: "ValidName n" and v: "v \<noteq> nil"
  shows "\<exists>h'. With k l n v h = Some (l, h') \<and> data (h' ! l) n = Some v
     \<and> (\<forall>d. descendant h l d \<longrightarrow> data (h' ! d) n = None \<and> Get k h' d n = Some (v, True))"
proof -
  obtain h' where h': "With k l n v h = Some (l, h')" "length h' = length h"
      "h' ! l = (h ! l)\<lparr>data := (data (h ! l))(n \<mapsto> v)\<rparr>"
      "\<forall>d < length h. d \<noteq> l \<longrightarrow> h' ! d = (if descendant h l d then del_key n (h ! d) else h ! d)"
    using With_pushes_down[OF wf l k n v] by blast
  have root: "data (h' ! l) n = Some v" using h'(3) by simp
  have nl: "\<not> descendant h l l" using descendant_gt[OF _ wf, of l l] by auto
  have same: "\<forall>a < length h. subs (h' ! a) = subs (h ! a) \<and> parent (h' ! a) = parent (h ! a)"
  proof (intro allI impI)
    fix a assume "a < length h"
    then show "subs (h' ! a) = subs (h ! a) \<and> parent (h' ! a) = parent (h ! a)"
      using h'(3,4) by (cases "a = l") (auto simp: del_key_def)
  qed
  have below: "\<forall>d < length h. descendant h l d \<longrightarrow> data (h' ! d) n = None"
    using h'(4) nl by (auto simp: del_key_def)
  have "data (h' ! d) n = None \<and> Get k h' d n = Some (v, True)" if d: "descendant h l d" for d
  proof -
    have dl: "d < length h" using descendant_gt[OF d wf] by simp
    then have "d < k" using k by simp
    then have "Get k h' d n = Some (v, True)"
      using Get_after_With[OF d wf li h'(2) same root below] by simp
    then show ?thesis using below dl d by simp
  qed
  then show ?thesis using h'(1) root by blast
qed


section \<open>Lookups through the registry\<close>

lemma extends_refl: "extends h h"
  by (simp add: extends_def)

lemma extends_trans: "extends h h1 \<Longrightarrow> extends h1 h2 \<Longrightarrow> extends h h2"
  by (auto simp: extends_def)

lemma logger_Logger_valid:
  "ValidName n \<Longrightarrow> \<exists>c h1. logger_Logger l n h = (Inr c, h1)"
  by (auto simp: logger_Logger_def Let_def split: option.splits)

lemma wf_heap_new_child:
  assumes wf: "wf_heap h" and l: "l < length h"
  shows "wf_heap (h[l := (h ! l)\<lparr>subs := subs (h ! l) @ [(n, length h)]\<rparr>]
        @ [\<lparr>parent = Some l, name = n, level = lv, data = d, subs = [],
            writer = w, encoder = e\<rparr>])"
  unfolding wf_heap_def
proof (intro conjI allI impI)
  let ?h1 = "h[l := (h ! l)\<lparr>subs := subs (h ! l) @ [(n, length h)]\<rparr>]
        @ [\<lparr>parent = Some l, name = n, level = lv, data = d, subs = [],
            writer = w, encoder = e\<rparr>]"
  show "?h1 \<noteq> []" by simp
  fix a assume a: "a < length ?h1"
  consider "a = length h" | "a < length h" "a \<noteq> l" | "a = l" using a by fastforce
  then show "\<forall>(n, c) \<in> set (subs (?h1 ! a)). a < c \<and> c < length ?h1"
  proof cases
    case 1
    then show ?thesis by (simp add: nth_append)
  next
    case 2
    then have e: "?h1 ! a = h ! a" by (simp add: nth_append)
    have "a < c \<and> c < Suc (length h)" if "(m, c) \<in> set (subs (h ! a))" for m c
      using wf_child[OF wf 2(1) that] by simp
    then show ?thesis unfolding e by auto
  next
    case 3
    then have e: "subs (?h1 ! a) = subs (h ! l) @ [(n, length h)]" using l by (simp add: nth_append)
    have "l < c \<and> c < Suc (length h)" if "(m, c) \<in> set (subs (h ! l))" for m c
      using wf_child[OF wf l that] by simp
    then show ?thesis unfolding e using l 3 by auto
  qed
  from a consider "a = length h" | "a < length h" "a \<noteq> l" | "a = l" by fastforce
  then show "case parent (?h1 ! a) of None \<Rightarrow> True | Some p \<Rightarrow> p < a"
  proof cases
    case 1
    then show ?thesis using l by (simp add: nth_append)
  next
    case 2
    then show ?thesis using wf by (auto simp: nth_append wf_heap_def)
  next
    case 3
    then show ?thesis using wf l by (auto simp: nth_append wf_heap_def)
  qed
qed

lemma extends_new_child:
  assumes l: "l < length h" and fresh: "map_of (subs (h ! l)) n = None"
  shows "extends h (h[l := (h ! l)\<lparr>subs := subs (h ! l) @ [(n, c)]\<rparr>] @ [x])"
  using assms by (auto simp: extends_def nth_append nth_list_update map_add_def split: option.splits)

lemma logger_Logger_step:
  assumes wf: "wf_heap h" and l: "l < length h" and v: "ValidName n"
  shows "\<exists>c h1. logger_Logger l n h = (Inr c, h1) \<and> wf_heap h1 \<and> l < c \<and> c < length h1
           \<and> map_of (subs (h1 ! l)) n = Some c \<and> extends h h1"
proof (cases "map_of (subs (h ! l)) n")
  case None
  let ?h1 = "h[l := (h ! l)\<lparr>subs := subs (h ! l) @ [(n, length h)]\<rparr>]
        @ [\<lparr>parent = Some l, name = n, level = level (h ! l), data = Map.empty, subs = [],
            writer = writer (h ! l), encoder = encoder (h ! l)\<rparr>]"
  have "logger_Logger l n h = (Inr (length h), ?h1)" using logger_Logger_new[OF v None] .
  moreover have "wf_heap ?h1" using wf_heap_new_child[OF wf l] .
  moreover have "map_of (subs (?h1 ! l)) n = Some (length h)"
    using l None by (simp add: nth_append map_add_def)
  moreover have "extends h ?h1" using extends_new_child[OF l None] .
  ultimately show ?thesis using l by auto
next
  case (Some c)
  then have "(n, c) \<in> set (subs (h ! l))" by (rule map_of_SomeD)
  then have "l < c \<and> c < length h" using wf_child[OF wf l] by blast
  then show ?thesis using logger_Logger_found[OF v Some] wf Some extends_refl by auto
qed

lemma walk_extends:
  "wf_heap h \<Longrightarrow> l < length h \<Longrightarrow> walk h l ns = Some a \<Longrightarrow> extends h h' \<Longrightarrow> walk h' l ns = Some a"
proof (induction ns arbitrary: l)
  case Nil
  then show ?case by simp
next
  case (Cons n ns)
  then obtain c where c: "map_of (subs (h ! l)) n = Some c" "walk h c ns = Some a"
    by (auto split: option.splits)
  have "c < length h" using wf_child[OF Cons.prems(1,2) map_of_SomeD[OF c(1)]] by simp
  then have "walk h' c ns = Some a" using Cons.IH Cons.prems(1,4) c(2) by blast
  moreover have "map_of (subs (h' ! l)) n = Some c"
    using Cons.prems(2,4) c(1) by (auto simp: extends_def)
  ultimately show ?case by simp
qed

lemma Logger_loop_creates:
  "wf_heap h \<Longrightarrow> l < length h \<Longrightarrow> \<forall>s \<in> set names. s \<noteq> [] \<longrightarrow> ValidName s \<Longrightarrow>
     \<exists>a h'. Logger_loop names l h = (Inr a, h') \<and> wf_heap h' \<and> a < length h' \<and> l \<le> a
        \<and> (filter (\<lambda>s. s \<noteq> []) names \<noteq> [] \<longrightarrow> l < a)
        \<and> walk h' l (filter (\<lambda>s. s \<noteq> []) names) = Some a \<and> extends h h'"
proof (induction names arbitrary: l h)
  case Nil
  then show ?case by (simp add: extends_refl)
next
  case (Cons n0 names)
  show ?case
  proof (cases "n0 = []")
    case True
    then show ?thesis using Cons.IH[OF Cons.prems(1,2)] Cons.prems(3) by simp
  next
    case False
    then have v: "ValidName n0" using Cons.prems(3) by simp
    obtain c h1 where c: "logger_Logger l n0 h = (Inr c, h1)" "wf_heap h1" "l < c" "c < length h1"
        "map_of (subs (h1 ! l)) n0 = Some c" "extends h h1"
      using logger_Logger_step[OF Cons.prems(1,2) v] by blast
    obtain a h' where a: "Logger_loop names c h1 = (Inr a, h')" "wf_heap h'" "a < length h'" "c \<le> a"
        "walk h' c (filter (\<lambda>s. s \<noteq> []) names) = Some a" "extends h1 h'"
      using Cons.IH[OF c(2,4)] Cons.prems(3) by auto
    have l1: "l < length h1" using c(3,4) by simp
    have "map_of (subs (h' ! l)) n0 = Some c" using a(6) c(5) l1 by (auto simp: extends_def)
    then have w: "walk h' l (filter (\<lambda>s. s \<noteq> []) (n0 # names)) = Some a"
      using False a(5) by simp
    have "Logger_loop (n0 # names) l h = (Inr a, h')" using False c(1) a(1) by simp
    then show ?thesis using a(2,3,4) c(3) w extends_trans[OF c(6) a(6)] by auto
  qed
qed

lemma Logger_loop_found:
  "walk h l (filter (\<lambda>s. s \<noteq> []) names) = Some a \<Longrightarrow> \<forall>s \<in> set names. s \<noteq> [] \<longrightarrow> ValidName s
     \<Longrightarrow> Logger_loop names l h = (Inr a, h)"
proof (induction names arbitrary: l)
  case Nil
  then show ?case by simp
next
  case (Cons n0 names)
  show ?case
  proof (cases "n0 = []")
    case True
    then show ?thesis using Cons by simp
  next
    case False
    then obtain c where c: "map_of (subs (h ! l)) n0 = Some c"
        "walk h c (filter (\<lambda>s. s \<noteq> []) names) = Some a"
      using Cons.prems(1) by (auto split: option.splits)
    have "logger_Logger l n0 h = (Inr c, h)"
      using logger_Logger_found[OF _ c(1)] False Cons.prems(2) by simp
    then show ?thesis using False Cons.IH[OF c(2)] Cons.prems(2) by simp
  qed
qed

lemma Logger_loop_invalid:
  "filter (\<lambda>s. s \<noteq> []) names = pre @ s # post \<Longrightarrow> \<forall>p \<in> set pre. ValidName p \<Longrightarrow> \<not> ValidName s
     \<Longrightarrow> \<exists>h'. Logger_loop names l h = (Inl (InvalidLoggerName s), h')"
proof (induction names arbitrary: pre l h)
  case Nil
  then show ?case by simp
next
  case (Cons n0 names)
  show ?case
  proof (cases "n0 = []")
    case True
    then show ?thesis using Cons by simp
  next
    case False
    then have f: "n0 # filter (\<lambda>s. s \<noteq> []) names = pre @ s # post" using Cons.prems(1) by simp
    show ?thesis
    proof (cases pre)
      case Nil
      then have "n0 = s" using f by simp
      then show ?thesis using False Cons.prems(3) by (simp add: logger_Logger_def)
    next
      case (Cons p pre')
      then have p: "n0 = p" "filter (\<lambda>s. s \<noteq> []) names = pre' @ s # post" using f by simp_all
      have "ValidName n0" using p(1) Cons Cons.prems(2) \<open>\<forall>p\<in>set pre. ValidName p\<close> by simp
      then obtain c h1 where c: "logger_Logger l n0 h = (Inr c, h1)"
        using logger_Logger_valid by blast
      have "\<forall>p \<in> set pre'. ValidName p" using Cons \<open>\<forall>p\<in>set pre. ValidName p\<close> by simp
      then obtain h' where "Logger_loop names c h1 = (Inl (InvalidLoggerName s), h')"
        using Cons.IH[OF p(2) _ \<open>\<not> ValidName s\<close>] by blast
      then show ?thesis using False c by simp
    qed
  qed
qed


lemma split_from_join:
  "concat (map (\<lambda>s. s @ [sep]) (split_from sep cur s)) = cur @ s @ [sep]"
  by (induction s arbitrary: cur) simp_all

lemma split_from_no_sep:
  "sep \<notin> set cur \<Longrightarrow> \<forall>x \<in> set (split_from sep cur s). sep \<notin> set x"
proof (induction s arbitrary: cur)
  case Nil
  then show ?case by simp
next
  case (Cons c s)
  show ?case
  proof (cases "c = sep")
    case True
    then show ?thesis using Cons.IH[of "[]"] Cons.prems by simp
  next
    case False
    then show ?thesis using Cons.IH[of "cur @ [c]"] Cons.prems by simp
  qed
qed

lemma Logger_loop_all_empty:
  "filter (\<lambda>s. s \<noteq> []) names = [] \<Longrightarrow> Logger_loop names l h = (Inr l, h)"
  by (induction names) (simp_all split: if_splits)

lemma wf_top: "wf_heap h \<Longrightarrow> top < length h"
  by (simp add: wf_heap_def top_def)

lemma segments_valid:
  "\<forall>s \<in> set (segments nm). ValidName s \<Longrightarrow> \<forall>s \<in> set (Split (CHR ''/'') nm). s \<noteq> [] \<longrightarrow> ValidName s"
  by (simp add: segments_def)

lemma segments_example:
  "segments ''svc/worker'' = [''svc'', ''worker'']" "segments [] = []"
  "segments ''/'' = []" "segments ''svc/Worker'' = [''svc'', ''Worker'']"
  by (simp_all add: segments_def Split_def)

lemma ValidName_example:
  "ValidName ''svc''" "ValidName ''worker''" "\<not> ValidName ''Worker''"
  by (simp_all add: ValidName_def lower_def alnum_def name_body_def)

text \<open>
  C7. \<open>Logger\<close> splits the name at every \<open>/\<close> (the pieces, each followed by the
  separator, give the name back, and no piece holds a separator) and skips the empty
  pieces. When no piece is left, it panics with \<open>missing logger name\<close> and the store
  is as it was. When a piece fails the pattern and the pieces before it pass, it
  panics with \<open>invalid logger name\<close> for that piece. When there is a piece and all
  pass, on a well-formed store it returns a node other than \<open>top\<close>: the node that the
  pieces, in their order, lead to from \<open>top\<close> in the store it leaves, which is
  well-formed and keeps every node and child of the store before.
\<close>

theorem Logger_registry:
  "concat (map (\<lambda>s. s @ ''/'') (Split (CHR ''/'') nm)) = nm @ ''/''
   \<and> list_all (\<lambda>s. CHR ''/'' \<notin> set s) (Split (CHR ''/'') nm)
   \<and> (segments nm = [] \<longrightarrow> Logger nm h = (Inl MissingLoggerName, h))
   \<and> (\<forall>pre s post. segments nm = pre @ s # post \<and> (\<forall>p \<in> set pre. ValidName p) \<and> \<not> ValidName s
         \<longrightarrow> (\<exists>h'. Logger nm h = (Inl (InvalidLoggerName s), h')))
   \<and> (wf_heap h \<and> segments nm \<noteq> [] \<and> (\<forall>s \<in> set (segments nm). ValidName s)
         \<longrightarrow> (\<exists>a h'. Logger nm h = (Inr a, h') \<and> a \<noteq> top \<and> a < length h' \<and> wf_heap h'
                 \<and> extends h h' \<and> walk h' top (segments nm) = Some a))"
proof (intro conjI allI impI)
  show "concat (map (\<lambda>s. s @ ''/'') (Split (CHR ''/'') nm)) = nm @ ''/''"
    by (simp add: Split_def split_from_join)
  show "list_all (\<lambda>s. CHR ''/'' \<notin> set s) (Split (CHR ''/'') nm)"
    using split_from_no_sep[of "CHR ''/''" "[]" nm] by (simp add: Split_def list_all_iff)
  show "Logger nm h = (Inl MissingLoggerName, h)" if "segments nm = []"
    using that Logger_loop_all_empty[of "Split (CHR ''/'') nm" top h]
    by (simp add: Logger_def segments_def)
  show "\<exists>h'. Logger nm h = (Inl (InvalidLoggerName s), h')"
    if "segments nm = pre @ s # post \<and> (\<forall>p \<in> set pre. ValidName p) \<and> \<not> ValidName s"
    for pre s post
  proof -
    have f: "filter (\<lambda>s. s \<noteq> []) (Split (CHR ''/'') nm) = pre @ s # post"
      using that by (simp add: segments_def)
    have p: "\<forall>p \<in> set pre. ValidName p" and ns: "\<not> ValidName s" using that by auto
    obtain h' where "Logger_loop (Split (CHR ''/'') nm) top h = (Inl (InvalidLoggerName s), h')"
      using Logger_loop_invalid[OF f p ns] by blast
    then show ?thesis by (simp add: Logger_def)
  qed
  show "\<exists>a h'. Logger nm h = (Inr a, h') \<and> a \<noteq> top \<and> a < length h' \<and> wf_heap h'
                 \<and> extends h h' \<and> walk h' top (segments nm) = Some a"
    if c: "wf_heap h \<and> segments nm \<noteq> [] \<and> (\<forall>s \<in> set (segments nm). ValidName s)"
  proof -
    obtain a h' where a: "Logger_loop (Split (CHR ''/'') nm) top h = (Inr a, h')" "wf_heap h'"
        "a < length h'" "filter (\<lambda>s. s \<noteq> []) (Split (CHR ''/'') nm) \<noteq> [] \<longrightarrow> top < a"
        "walk h' top (filter (\<lambda>s. s \<noteq> []) (Split (CHR ''/'') nm)) = Some a" "extends h h'"
      using Logger_loop_creates[of h top "Split (CHR ''/'') nm"] c wf_top[of h] segments_valid[of nm]
      by blast
    have "a \<noteq> top" using a(4) c by (simp add: segments_def)
    then have "Logger nm h = (Inr a, h')" using a(1) by (simp add: Logger_def)
    then show ?thesis using a \<open>a \<noteq> top\<close> by (auto simp: segments_def)
  qed
qed

theorem Logger_registry_witness:
  "Logger ''/'' (init_top 1 :: string heap) = (Inl MissingLoggerName, init_top 1)
   \<and> (\<exists>h'. Logger ''svc/Worker'' (init_top 1 :: string heap) = (Inl (InvalidLoggerName ''Worker''), h'))
   \<and> (\<exists>a h'. Logger ''svc/worker'' (init_top 1 :: string heap) = (Inr a, h') \<and> a \<noteq> top
         \<and> walk h' top [''svc'', ''worker''] = Some a)"
proof -
  have 1: "Logger ''/'' (init_top 1 :: string heap) = (Inl MissingLoggerName, init_top 1)"
    using Logger_registry[of "''/''" "init_top 1 :: string heap"] segments_example by simp
  have b: "segments ''svc/Worker'' = [''svc''] @ ''Worker'' # [] \<and> (\<forall>p \<in> set [''svc'']. ValidName p)
      \<and> \<not> ValidName ''Worker''"
    using segments_example ValidName_example by simp
  have 2: "\<exists>h'. Logger ''svc/Worker'' (init_top 1 :: string heap) = (Inl (InvalidLoggerName ''Worker''), h')"
    using Logger_registry[of "''svc/Worker''" "init_top 1 :: string heap",
        THEN conjunct2, THEN conjunct2, THEN conjunct2, THEN conjunct1, rule_format, OF b] .
  have 3: "\<exists>a h'. Logger ''svc/worker'' (init_top 1 :: string heap) = (Inr a, h') \<and> a \<noteq> top
         \<and> walk h' top [''svc'', ''worker''] = Some a"
    using Logger_registry[of "''svc/worker''" "init_top 1 :: string heap"] segments_example
      ValidName_example wf_init_top[of 1] by auto
  show ?thesis using 1 2 3 by blast
qed


text \<open>
  C6. For a name with a piece and all pieces valid, on a well-formed store: \<open>Logger\<close>
  returns a node, and \<open>Logger\<close> with the same name on the store it leaves returns the
  same node and leaves that store as it is, and so it does on every store that
  extends it.
\<close>

theorem Logger_same_node:
  assumes "wf_heap h" "segments nm \<noteq> []" "\<forall>s \<in> set (segments nm). ValidName s"
  shows "\<exists>a h'. Logger nm h = (Inr a, h') \<and> Logger nm h' = (Inr a, h')
           \<and> (\<forall>h''. extends h' h'' \<longrightarrow> Logger nm h'' = (Inr a, h''))"
proof -
  obtain a h' where a: "Logger_loop (Split (CHR ''/'') nm) top h = (Inr a, h')" "wf_heap h'"
      "a < length h'" "filter (\<lambda>s. s \<noteq> []) (Split (CHR ''/'') nm) \<noteq> [] \<longrightarrow> top < a"
      "walk h' top (filter (\<lambda>s. s \<noteq> []) (Split (CHR ''/'') nm)) = Some a"
    using Logger_loop_creates[of h top "Split (CHR ''/'') nm"] assms wf_top[of h] segments_valid[of nm]
    by blast
  have t: "a \<noteq> top" using a(4) assms(2) by (simp add: segments_def)
  have first: "Logger nm h = (Inr a, h')" using a(1) t by (simp add: Logger_def)
  have later: "Logger nm h'' = (Inr a, h'')" if "extends h' h''" for h''
  proof -
    have "walk h'' top (filter (\<lambda>s. s \<noteq> []) (Split (CHR ''/'') nm)) = Some a"
      using walk_extends[OF a(2) wf_top[OF a(2)] a(5) that] .
    then have "Logger_loop (Split (CHR ''/'') nm) top h'' = (Inr a, h'')"
      using Logger_loop_found segments_valid[OF assms(3)] by blast
    then show ?thesis using t by (simp add: Logger_def)
  qed
  show ?thesis using first later extends_refl by blast
qed

theorem Logger_same_node_witness:
  "Logger ''svc/worker'' (init_top 1) = (Inr 2, tree3)
   \<and> Logger ''svc/worker'' tree3 = (Inr 2, tree3)
   \<and> Logger ''api'' tree3 = (Inr 3, tree4)
   \<and> Logger ''svc/worker'' tree4 = (Inr 2, tree4)"
proof -
  have v: "ValidName ''api''" by (simp add: ValidName_def lower_def alnum_def name_body_def)
  have e1: "Logger ''svc/worker'' (init_top 1) = (Inr 2, tree3)"
    using ValidName_example
    by (simp add: Logger_def Split_def logger_Logger_def init_top_def tree3_def top_def)
  have e2: "Logger ''api'' tree3 = (Inr 3, tree4)"
    using v by (simp add: Logger_def Split_def logger_Logger_def tree3_def tree4_def top_def)
  have x: "extends tree3 tree4"
    by (simp add: extends_def tree3_def tree4_def less_Suc_eq eval_nat_numeral)
  have s: "segments ''svc/worker'' \<noteq> []" "\<forall>s \<in> set (segments ''svc/worker''). ValidName s"
    using segments_example ValidName_example by simp_all
  from Logger_same_node[of "init_top 1 :: string heap" "''svc/worker''", OF wf_init_top s] e1
  have "Logger ''svc/worker'' tree3 = (Inr 2, tree3)"
    and "\<forall>h''. extends tree3 h'' \<longrightarrow> Logger ''svc/worker'' h'' = (Inr 2, h'')"
    by auto
  then show ?thesis using e1 e2 x by simp
qed

section \<open>The stores the code builds\<close>

text \<open>
  The first store is well-formed and linked, and \<open>logger.Logger\<close>, \<open>Set\<close> and
  \<open>SetLevel\<close> keep a store so (for \<open>logger.Logger\<close> and well-formedness this is
  \<open>logger_Logger_step\<close>).
\<close>

lemma linked_init_top: "linked (init_top lv)"
  by (simp add: linked_def init_top_def)

lemma linked_new_child:
  assumes wf: "wf_heap h" and li: "linked h" and l: "l < length h"
  shows "linked (h[l := (h ! l)\<lparr>subs := subs (h ! l) @ [(n, length h)]\<rparr>]
        @ [\<lparr>parent = Some l, name = n, level = lv, data = d, subs = [],
            writer = w, encoder = e\<rparr>])"
  unfolding linked_def
proof (intro allI impI ballI)
  let ?h1 = "h[l := (h ! l)\<lparr>subs := subs (h ! l) @ [(n, length h)]\<rparr>]
        @ [\<lparr>parent = Some l, name = n, level = lv, data = d, subs = [],
            writer = w, encoder = e\<rparr>]"
  fix a mc assume a: "a < length ?h1" and mc: "mc \<in> set (subs (?h1 ! a))"
  obtain m c where mc2: "mc = (m, c)" by (cases mc)
  have old: "parent (?h1 ! c') = Some a'" if "a' < length h" "(m', c') \<in> set (subs (h ! a'))" for a' m' c'
  proof -
    have c': "c' < length h" using wf_child[OF wf that] by simp
    have "parent (h ! c') = Some a'" using linked_child[OF li that] .
    then show ?thesis using c' l by (cases "c' = l") (simp_all add: nth_append)
  qed
  consider "a = length h" | "a < length h" "a \<noteq> l" | "a = l" using a by fastforce
  then have "parent (?h1 ! c) = Some a"
  proof cases
    case 1
    then show ?thesis using mc by (simp add: nth_append)
  next
    case 2
    then have "(m, c) \<in> set (subs (h ! a))" using mc mc2 by (simp add: nth_append)
    then show ?thesis using old 2 by blast
  next
    case 3
    then have "(m, c) \<in> set (subs (h ! l)) \<or> (m, c) = (n, length h)"
      using mc mc2 l by (auto simp: nth_append)
    then show ?thesis
    proof
      assume "(m, c) \<in> set (subs (h ! l))"
      then show ?thesis using old l 3 by blast
    next
      assume "(m, c) = (n, length h)"
      then show ?thesis using 3 by (simp add: nth_append)
    qed
  qed
  then show "case mc of (n, c) \<Rightarrow> parent (?h1 ! c) = Some a" using mc2 by simp
qed

lemma linked_logger_Logger:
  assumes "wf_heap h" "linked h" "l < length h" "logger_Logger l n h = (Inr c, h')"
  shows "linked h'"
proof (cases "map_of (subs (h ! l)) n")
  case None
  have v: "ValidName n" using assms(4) by (auto simp: logger_Logger_def split: if_splits)
  show ?thesis
    using assms(4) logger_Logger_new[OF v None] linked_new_child[OF assms(1,2,3)] by auto
next
  case (Some c')
  then show ?thesis using assms(2,4) by (auto simp: logger_Logger_def split: if_splits)
qed

lemma wf_heap_same_links:
  assumes "wf_heap h" "length x = length h"
    "\<forall>a < length h. subs (x ! a) = subs (h ! a) \<and> parent (x ! a) = parent (h ! a)"
  shows "wf_heap x"
  using assms unfolding wf_heap_def by auto

lemma wf_heap_Set:
  assumes "wf_heap h" "Set l n v h = Inr h'"
  shows "wf_heap h'"
proof -
  have h': "h' = h[l := (h ! l)\<lparr>data := (data (h ! l))(n \<mapsto> v)\<rparr>]"
    using assms(2) by (auto simp: Set_def split: if_splits)
  have "subs (h' ! a) = subs (h ! a) \<and> parent (h' ! a) = parent (h ! a)" if "a < length h" for a
    using that by (cases "a = l") (simp_all add: h')
  then show ?thesis using wf_heap_same_links[OF assms(1), of h'] by (simp add: h')
qed

lemma wf_heap_SetLevel:
  assumes "wf_heap h" "l < length h" "length h \<le> k" "SetLevel k minLevel maxLevel l lv h = Some h'"
  shows "wf_heap h'"
proof (cases "minLevel \<le> lv \<and> lv \<le> maxLevel")
  case True
  have "length h - l \<le> k" using assms(3) by simp
  then obtain x where x: "propagate k (\<lambda>n. n\<lparr>level := lv\<rparr>) l h = Some x"
      "applied (\<lambda>n. n\<lparr>level := lv\<rparr>) (cone h l) h x"
    using propagate_applied[of "\<lambda>n. n\<lparr>level := lv\<rparr>" h l k] assms(1,2) by auto
  have "x = h'" using SetLevel_propagate[of minLevel lv maxLevel k l h] True x(1) assms(4) by simp
  then show ?thesis using applied_wf[OF x(2) _ _ assms(1)] by simp
next
  case False
  then show ?thesis using assms by (cases k) auto
qed

end
